theory Spec2Isabelle
  imports Main
begin

section \<open>Memory and the allocator\<close>

text \<open>
  \<^verbatim>\<open>DynamicArray<T, Alloc>\<close> keeps three raw pointers into one allocation and goes
  through \<^verbatim>\<open>std::allocator<T>\<close> for \<^verbatim>\<open>allocate\<close>, \<^verbatim>\<open>deallocate\<close>,
  \<^verbatim>\<open>construct\<close> and \<^verbatim>\<open>destroy\<close>.  The heap is a list of blocks, one per call of
  \<^verbatim>\<open>allocate\<close>; a block is a list of slots, each raw storage or a live element.
  A pointer names a region (a block, or no block for the null region) and an element offset.
  Pointer arithmetic is computed as on a flat address space, also past the end of a block;
  what is undefined in C++ and has no sensible value here (reading or writing a slot that
  does not exist, reading raw storage, subtracting pointers into different allocations,
  stepping below the start of a region) is the result \<open>Inl Undefined\<close>.
  Allocation never fails in the model, and \<^verbatim>\<open>size_type\<close> is \<open>nat\<close>: a size counts
  slots of a block that was allocated, far below \<open>2 ^ 64\<close>.
\<close>

datatype error = OutOfRange | Undefined

datatype 'a slot = Raw | Live 'a

datatype 'a block = Freed | Block "'a slot list"

datatype pointer = Ptr (region: "nat option") (offset: nat)

type_synonym 'a heap = "'a block list"

definition bindE :: "error + 'a \<Rightarrow> ('a \<Rightarrow> error + 'b) \<Rightarrow> error + 'b" where
  "bindE m f = (case m of Inl e \<Rightarrow> Inl e | Inr x \<Rightarrow> f x)"

definition nullptr :: pointer where
  "nullptr = Ptr None 0"

text \<open>\<^verbatim>\<open>p + n\<close>.\<close>

definition ptr_add :: "pointer \<Rightarrow> nat \<Rightarrow> pointer" where
  "ptr_add p n = Ptr (region p) (offset p + n)"

text \<open>\<^verbatim>\<open>p - 1\<close>.\<close>

definition ptr_prev :: "pointer \<Rightarrow> error + pointer" where
  "ptr_prev p = (if offset p = 0 then Inl Undefined else Inr (Ptr (region p) (offset p - 1)))"

text \<open>\<^verbatim>\<open>p - q\<close>, a \<^verbatim>\<open>ptrdiff_t\<close>.\<close>

definition ptr_diff :: "pointer \<Rightarrow> pointer \<Rightarrow> error + int" where
  "ptr_diff p q =
     (if region p = region q then Inr (int (offset p) - int (offset q)) else Inl Undefined)"

text \<open>\<^verbatim>\<open>static_cast<size_type>\<close> of a pointer difference; a negative one wraps.\<close>

definition size_type_of :: "int \<Rightarrow> nat" where
  "size_type_of d = (if 0 \<le> d then nat d else nat (d mod 2 ^ 64))"

text \<open>The block and slots a pointer designates, when it designates a slot that exists.\<close>

definition slots_at :: "'a heap \<Rightarrow> pointer \<Rightarrow> (nat \<times> 'a slot list) option" where
  "slots_at h p =
     (case region p of
        None \<Rightarrow> None
      | Some b \<Rightarrow>
          if b < length h then
            (case h ! b of
               Freed \<Rightarrow> None
             | Block ss \<Rightarrow> if offset p < length ss then Some (b, ss) else None)
          else None)"

definition allocate :: "'a heap \<Rightarrow> nat \<Rightarrow> pointer \<times> 'a heap" where
  "allocate h n = (Ptr (Some (length h)) 0, h @ [Block (replicate n Raw)])"

definition deallocate :: "'a heap \<Rightarrow> pointer \<Rightarrow> nat \<Rightarrow> error + 'a heap" where
  "deallocate h p n =
     (if p = nullptr then Inr h
      else case region p of
        None \<Rightarrow> Inl Undefined
      | Some b \<Rightarrow>
          if offset p = 0 \<and> b < length h then
            (case h ! b of
               Freed \<Rightarrow> Inl Undefined
             | Block ss \<Rightarrow> if length ss = n then Inr (h[b := Freed]) else Inl Undefined)
          else Inl Undefined)"

definition construct :: "'a heap \<Rightarrow> pointer \<Rightarrow> 'a \<Rightarrow> error + 'a heap" where
  "construct h p v =
     (case slots_at h p of
        None \<Rightarrow> Inl Undefined
      | Some (b, ss) \<Rightarrow> Inr (h[b := Block (ss[offset p := Live v])]))"

definition destroy :: "'a heap \<Rightarrow> pointer \<Rightarrow> error + 'a heap" where
  "destroy h p =
     (case slots_at h p of
        None \<Rightarrow> Inl Undefined
      | Some (b, ss) \<Rightarrow>
          (case ss ! offset p of
             Raw \<Rightarrow> Inl Undefined
           | Live v \<Rightarrow> Inr (h[b := Block (ss[offset p := Raw])])))"

text \<open>Reading \<^verbatim>\<open>*p\<close>.\<close>

definition deref :: "'a heap \<Rightarrow> pointer \<Rightarrow> error + 'a" where
  "deref h p =
     (case slots_at h p of
        None \<Rightarrow> Inl Undefined
      | Some (b, ss) \<Rightarrow> (case ss ! offset p of Raw \<Rightarrow> Inl Undefined | Live v \<Rightarrow> Inr v))"

section \<open>The class\<close>

text \<open>
  The three data members.  Objects live in a store indexed by their address, so that
  \<^verbatim>\<open>this\<close> and \<^verbatim>\<open>other\<close> may be the same object.
\<close>

record DynamicArray =
  head :: pointer
  tail :: pointer
  tailCap :: pointer

record 'a state =
  heap :: "'a heap"
  objects :: "nat \<Rightarrow> DynamicArray"

definition set_head :: "'a state \<Rightarrow> nat \<Rightarrow> pointer \<Rightarrow> 'a state" where
  "set_head s this p = s\<lparr>objects := (objects s)(this := (objects s this)\<lparr>head := p\<rparr>)\<rparr>"

definition set_tail :: "'a state \<Rightarrow> nat \<Rightarrow> pointer \<Rightarrow> 'a state" where
  "set_tail s this p = s\<lparr>objects := (objects s)(this := (objects s this)\<lparr>tail := p\<rparr>)\<rparr>"

definition set_tailCap :: "'a state \<Rightarrow> nat \<Rightarrow> pointer \<Rightarrow> 'a state" where
  "set_tailCap s this p = s\<lparr>objects := (objects s)(this := (objects s this)\<lparr>tailCap := p\<rparr>)\<rparr>"

subsection \<open>Loops\<close>

text \<open>\<^verbatim>\<open>for (i = i0; i < n; ++i) alloc.construct(p + i, v);\<close>\<close>

function fill_loop :: "'a heap \<Rightarrow> pointer \<Rightarrow> nat \<Rightarrow> nat \<Rightarrow> 'a \<Rightarrow> error + 'a heap" where
  "fill_loop h p i n v =
     (if i < n then
        (case construct h (ptr_add p i) v of
           Inl e \<Rightarrow> Inl e
         | Inr h' \<Rightarrow> fill_loop h' p (Suc i) n v)
      else Inr h)"
  by pat_completeness auto
termination
  by (relation "measure (\<lambda>(h, p, i, n, v). n - i)") auto

text \<open>\<^verbatim>\<open>for (i = i0; i < n; ++i) alloc.construct(dst + i, src[i]);\<close>\<close>

function copy_loop :: "'a heap \<Rightarrow> pointer \<Rightarrow> pointer \<Rightarrow> nat \<Rightarrow> nat \<Rightarrow> error + 'a heap" where
  "copy_loop h dst src i n =
     (if i < n then
        (case deref h (ptr_add src i) of
           Inl e \<Rightarrow> Inl e
         | Inr v \<Rightarrow>
             (case construct h (ptr_add dst i) v of
                Inl e \<Rightarrow> Inl e
              | Inr h' \<Rightarrow> copy_loop h' dst src (Suc i) n))
      else Inr h)"
  by pat_completeness auto
termination
  by (relation "measure (\<lambda>(h, dst, src, i, n). n - i)") auto

text \<open>\<^verbatim>\<open>for (i = hi; i-- > lo; ) alloc.destroy(p + i);\<close>\<close>

function destroy_loop :: "'a heap \<Rightarrow> pointer \<Rightarrow> nat \<Rightarrow> nat \<Rightarrow> error + 'a heap" where
  "destroy_loop h p i lo =
     (if lo < i then
        (case destroy h (ptr_add p (i - 1)) of
           Inl e \<Rightarrow> Inl e
         | Inr h' \<Rightarrow> destroy_loop h' p (i - 1) lo)
      else Inr h)"
  by pat_completeness auto
termination
  by (relation "measure (\<lambda>(h, p, i, lo). i)") auto

declare fill_loop.simps [simp del]
declare copy_loop.simps [simp del]
declare destroy_loop.simps [simp del]

subsection \<open>Queries\<close>

definition size_da :: "'a state \<Rightarrow> nat \<Rightarrow> error + nat" where
  "size_da s this =
     bindE (ptr_diff (tail (objects s this)) (head (objects s this)))
       (\<lambda>d. Inr (size_type_of d))"

definition capacity :: "'a state \<Rightarrow> nat \<Rightarrow> error + nat" where
  "capacity s this =
     bindE (ptr_diff (tailCap (objects s this)) (head (objects s this)))
       (\<lambda>d. Inr (size_type_of d))"

definition empty_da :: "'a state \<Rightarrow> nat \<Rightarrow> error + bool" where
  "empty_da s this = bindE (size_da s this) (\<lambda>n. Inr (n = 0))"

text \<open>\<^verbatim>\<open>operator[]\<close>: \<^verbatim>\<open>head[index]\<close>, no check.\<close>

definition subscript :: "'a state \<Rightarrow> nat \<Rightarrow> nat \<Rightarrow> error + 'a" where
  "subscript s this index = deref (heap s) (ptr_add (head (objects s this)) index)"

definition RangeGuard :: "'a state \<Rightarrow> nat \<Rightarrow> nat \<Rightarrow> error + unit" where
  "RangeGuard s this index =
     bindE (size_da s this) (\<lambda>n. if index > n then Inl OutOfRange else Inr ())"

definition at :: "'a state \<Rightarrow> nat \<Rightarrow> nat \<Rightarrow> error + 'a" where
  "at s this index = bindE (RangeGuard s this index) (\<lambda>_. subscript s this index)"

definition front :: "'a state \<Rightarrow> nat \<Rightarrow> error + 'a" where
  "front s this = deref (heap s) (head (objects s this))"

definition back_da :: "'a state \<Rightarrow> nat \<Rightarrow> error + 'a" where
  "back_da s this = bindE (ptr_prev (tail (objects s this))) (deref (heap s))"

definition begin_da :: "'a state \<Rightarrow> nat \<Rightarrow> pointer" where
  "begin_da s this = head (objects s this)"

definition end_da :: "'a state \<Rightarrow> nat \<Rightarrow> pointer" where
  "end_da s this = tail (objects s this)"

subsection \<open>Private helpers\<close>

text \<open>\<^verbatim>\<open>Init(n, value)\<close>.\<close>

definition Init_fill :: "'a state \<Rightarrow> nat \<Rightarrow> 'a \<Rightarrow> error + (pointer \<times> 'a state)" where
  "Init_fill s n v =
     (case allocate (heap s) n of
        (hd0, h1) \<Rightarrow> bindE (fill_loop h1 hd0 0 n v) (\<lambda>h2. Inr (hd0, s\<lparr>heap := h2\<rparr>)))"

text \<open>\<^verbatim>\<open>Init(arr)\<close>; \<^verbatim>\<open>arr[i]\<close> is \<^verbatim>\<open>arr.head[i]\<close>.\<close>

definition Init_copy :: "'a state \<Rightarrow> nat \<Rightarrow> error + (pointer \<times> 'a state)" where
  "Init_copy s arr =
     bindE (size_da s arr)
       (\<lambda>n. case allocate (heap s) n of
          (hd0, h1) \<Rightarrow>
            bindE (copy_loop h1 hd0 (head (objects s arr)) 0 n)
              (\<lambda>h2. Inr (hd0, s\<lparr>heap := h2\<rparr>)))"

text \<open>
  \<^verbatim>\<open>Realloc(newCapacity)\<close>.  The old block is neither destroyed nor deallocated: the
  source does not do it.
\<close>

definition Realloc :: "'a state \<Rightarrow> nat \<Rightarrow> nat \<Rightarrow> error + 'a state" where
  "Realloc s this newCapacity =
     (case allocate (heap s) newCapacity of
        (newHead, h1) \<Rightarrow>
          bindE (size_da s this)
            (\<lambda>n. bindE (copy_loop h1 newHead (head (objects s this)) 0 n)
               (\<lambda>h2. Inr (s\<lparr>heap := h2,
                   objects := (objects s)(this :=
                     \<lparr>head = newHead, tail = ptr_add newHead n,
                      tailCap = ptr_add newHead newCapacity\<rparr>)\<rparr>))))"

definition AmortizedGrowSize :: "'a state \<Rightarrow> nat \<Rightarrow> error + nat" where
  "AmortizedGrowSize s this = bindE (size_da s this) (\<lambda>n. Inr ((n div 2) + n + 1))"

definition AmortizedGrow :: "'a state \<Rightarrow> nat \<Rightarrow> error + 'a state" where
  "AmortizedGrow s this = bindE (AmortizedGrowSize s this) (Realloc s this)"

definition PushBack :: "'a state \<Rightarrow> nat \<Rightarrow> 'a \<Rightarrow> error + 'a state" where
  "PushBack s this v =
     bindE (size_da s this)
       (\<lambda>n. bindE (capacity s this)
          (\<lambda>c. bindE (if n = c then AmortizedGrow s this else Inr s)
             (\<lambda>s1. bindE (construct (heap s1) (tail (objects s1 this)) v)
                (\<lambda>h2. Inr (set_tail (s1\<lparr>heap := h2\<rparr>) this
                              (ptr_add (tail (objects s1 this)) 1))))))"

definition Clear :: "'a state \<Rightarrow> nat \<Rightarrow> error + 'a state" where
  "Clear s this =
     bindE (size_da s this)
       (\<lambda>n. bindE (destroy_loop (heap s) (head (objects s this)) n 0)
          (\<lambda>h1. bindE (capacity s this)
             (\<lambda>c. bindE (deallocate h1 (head (objects s this)) c)
                (\<lambda>h2. Inr (s\<lparr>heap := h2\<rparr>)))))"

subsection \<open>Construction, assignment, destruction\<close>

definition sentinel :: DynamicArray where
  "sentinel = \<lparr>head = nullptr, tail = nullptr, tailCap = nullptr\<rparr>"

definition destructor :: "'a state \<Rightarrow> nat \<Rightarrow> error + 'a state" where
  "destructor s this = Clear s this"

definition construct_default :: "'a state \<Rightarrow> nat \<Rightarrow> error + 'a state" where
  "construct_default s this =
     Inr (s\<lparr>objects := (objects s)(this :=
            \<lparr>head = nullptr, tail = nullptr, tailCap = nullptr\<rparr>)\<rparr>)"

definition construct_fill :: "'a state \<Rightarrow> nat \<Rightarrow> nat \<Rightarrow> 'a \<Rightarrow> error + 'a state" where
  "construct_fill s this n v =
     bindE (Init_fill s n v)
       (\<lambda>(p, s1).
          let s2 = set_head s1 this p;
              s3 = set_tail s2 this (ptr_add (head (objects s2 this)) n)
          in Inr (set_tailCap s3 this (tail (objects s3 this))))"

text \<open>
  The copy constructor: the members are initialised in declaration order, \<^verbatim>\<open>head\<close>
  from \<^verbatim>\<open>Init(other)\<close>, \<^verbatim>\<open>tail\<close> as \<^verbatim>\<open>head + other.size()\<close> and \<^verbatim>\<open>tailCap\<close> as
  \<^verbatim>\<open>head + other.capacity()\<close>.
\<close>

definition construct_copy :: "'a state \<Rightarrow> nat \<Rightarrow> nat \<Rightarrow> error + 'a state" where
  "construct_copy s this other =
     bindE (Init_copy s other)
       (\<lambda>(p, s1).
          let s2 = set_head s1 this p in
          bindE (size_da s2 other)
            (\<lambda>n. let s3 = set_tail s2 this (ptr_add (head (objects s2 this)) n) in
               bindE (capacity s3 other)
                 (\<lambda>c. Inr (set_tailCap s3 this (ptr_add (head (objects s3 this)) c)))))"

definition construct_move :: "'a state \<Rightarrow> nat \<Rightarrow> nat \<Rightarrow> error + 'a state" where
  "construct_move s this other =
     (let s1 = set_head s this (head (objects s other));
          s2 = set_tail s1 this (tail (objects s1 other));
          s3 = set_tailCap s2 this (tailCap (objects s2 other));
          s4 = set_head s3 other nullptr;
          s5 = set_tail s4 other nullptr
      in Inr (set_tailCap s5 other nullptr))"

text \<open>\<^verbatim>\<open>operator=(DynamicArray const &)\<close>.\<close>

definition assign_copy :: "'a state \<Rightarrow> nat \<Rightarrow> nat \<Rightarrow> error + 'a state" where
  "assign_copy s this other =
     bindE (Init_copy s other)
       (\<lambda>(p, s1).
          let s2 = set_head s1 this p in
          bindE (size_da s2 other)
            (\<lambda>n. let s3 = set_tail s2 this (ptr_add (head (objects s2 this)) n)
               in Inr (set_tailCap s3 this (tail (objects s3 this)))))"

text \<open>\<^verbatim>\<open>operator=(DynamicArray &&)\<close>.\<close>

definition assign_move :: "'a state \<Rightarrow> nat \<Rightarrow> nat \<Rightarrow> error + 'a state" where
  "assign_move s this other =
     (let s1 = set_head s this (head (objects s other));
          s2 = set_tail s1 this (tail (objects s1 other));
          s3 = set_tailCap s2 this (tailCap (objects s2 other));
          s4 = set_head s3 other nullptr;
          s5 = set_tail s4 other nullptr
      in Inr (set_tailCap s5 other nullptr))"

subsection \<open>Modifiers\<close>

definition clear :: "'a state \<Rightarrow> nat \<Rightarrow> error + 'a state" where
  "clear s this =
     bindE (Clear s this)
       (\<lambda>s1. Inr (set_tailCap (set_tail (set_head s1 this nullptr) this nullptr) this nullptr))"

definition release :: "'a state \<Rightarrow> nat \<Rightarrow> error + (pointer \<times> 'a state)" where
  "release s this =
     (let p = head (objects s this)
      in Inr (p, set_tailCap (set_tail (set_head s this nullptr) this nullptr) this nullptr))"

text \<open>
  Modelled from the spec: \<^verbatim>\<open>reserve\<close> and \<^verbatim>\<open>resize\<close> call \<^verbatim>\<open>Reallocate\<close>, which is
  declared nowhere in the source.  The spec's reallocation allocates a buffer of the
  target capacity, transfers the live elements to it in order and adopts the new
  cursors; that is what the class's own \<^verbatim>\<open>Realloc\<close> does, and \<^verbatim>\<open>Reallocate\<close> is taken
  to be it.
\<close>

definition Reallocate :: "'a state \<Rightarrow> nat \<Rightarrow> nat \<Rightarrow> error + 'a state" where
  "Reallocate s this newCapacity = Realloc s this newCapacity"

definition reserve :: "'a state \<Rightarrow> nat \<Rightarrow> nat \<Rightarrow> error + 'a state" where
  "reserve s this n =
     bindE (size_da s this) (\<lambda>sz. if n > sz then Reallocate s this n else Inr s)"

text \<open>
  Modelled from the spec: the shrinking branch of \<^verbatim>\<open>resize\<close> ends with
  \<^verbatim>\<open>tail = head + low\<close>, and \<^verbatim>\<open>low\<close> is declared nowhere in the source.  The spec has the
  shrink destroy the elements in \<open>[newSize, oldSize)\<close> and adjust the end of the live
  elements, which leaves \<open>newSize\<close> of them.
\<close>

definition low :: "nat \<Rightarrow> nat" where
  "low newSize = newSize"

definition resize :: "'a state \<Rightarrow> nat \<Rightarrow> nat \<Rightarrow> 'a \<Rightarrow> error + 'a state" where
  "resize s this newSize v =
     bindE (size_da s this)
       (\<lambda>oldSize.
          if newSize > oldSize then
            bindE (Reallocate s this newSize)
              (\<lambda>s1. bindE (fill_loop (heap s1) (head (objects s1 this)) oldSize newSize v)
                 (\<lambda>h2. Inr (set_tail (s1\<lparr>heap := h2\<rparr>) this
                               (ptr_add (head (objects s1 this)) newSize))))
          else if newSize < oldSize then
            bindE (size_da s this)
              (\<lambda>hi. bindE (destroy_loop (heap s) (head (objects s this)) hi newSize)
                 (\<lambda>h1. Inr (set_tail (s\<lparr>heap := h1\<rparr>) this
                               (ptr_add (head (objects s this)) (low newSize)))))
          else Inr s)"

definition push_back :: "'a state \<Rightarrow> nat \<Rightarrow> 'a \<Rightarrow> error + 'a state" where
  "push_back s this v = PushBack s this v"

definition pop_back :: "'a state \<Rightarrow> nat \<Rightarrow> error + 'a state" where
  "pop_back s this =
     bindE (ptr_prev (tail (objects s this)))
       (\<lambda>p. bindE (destroy (heap s) p)
          (\<lambda>h1. bindE (ptr_prev (tail (objects s this)))
             (\<lambda>q. Inr (set_tail (s\<lparr>heap := h1\<rparr>) this q))))"

subsection \<open>Reading a container\<close>

text \<open>The elements as a client reads them by index: \<^verbatim>\<open>a[0]\<close>, ..., \<^verbatim>\<open>a[size() - 1]\<close>.\<close>

fun collect :: "(error + 'a) list \<Rightarrow> error + 'a list" where
  "collect [] = Inr []"
| "collect (r # rs) = bindE r (\<lambda>v. bindE (collect rs) (\<lambda>vs. Inr (v # vs)))"

definition elements :: "'a state \<Rightarrow> nat \<Rightarrow> error + 'a list" where
  "elements s this = bindE (size_da s this) (\<lambda>n. collect (map (subscript s this) [0..<n]))"

text \<open>
  The elements as a client iterates them:
  \<^verbatim>\<open>for (it = a.begin(); it != a.end(); ++it) ... *it ...\<close>.
  The walk ends at \<^verbatim>\<open>end()\<close> or at the first slot it cannot read.
\<close>

definition room :: "'a heap \<Rightarrow> pointer \<Rightarrow> nat" where
  "room h p = (case slots_at h p of None \<Rightarrow> 0 | Some (b, ss) \<Rightarrow> length ss - offset p)"

function traverse :: "'a heap \<Rightarrow> pointer \<Rightarrow> pointer \<Rightarrow> error + 'a list" where
  "traverse h it e =
     (if it = e then Inr []
      else case deref h it of
        Inl er \<Rightarrow> Inl er
      | Inr v \<Rightarrow> (case traverse h (ptr_add it 1) e of
                    Inl er \<Rightarrow> Inl er
                  | Inr vs \<Rightarrow> Inr (v # vs)))"
  by pat_completeness auto
termination
  by (relation "measure (\<lambda>(h, it, e). room h it)")
     (auto simp: room_def deref_def slots_at_def ptr_add_def
           split: option.splits block.splits if_splits slot.splits)

declare traverse.simps [simp del]

definition iterate :: "'a state \<Rightarrow> nat \<Rightarrow> error + 'a list" where
  "iterate s this = traverse (heap s) (begin_da s this) (end_da s this)"

subsection \<open>Well-formed containers\<close>

text \<open>
  The data model's invariant: either the three cursors are the empty sentinel, or
  \<^verbatim>\<open>head\<close> is the start of a block of \<^verbatim>\<open>capacity()\<close> slots that is still allocated,
  \<^verbatim>\<open>tail\<close> and \<^verbatim>\<open>tailCap\<close> point into the same block in that order, and the slots
  below \<^verbatim>\<open>tail\<close> hold live elements.
\<close>

fun is_live :: "'a slot \<Rightarrow> bool" where
  "is_live Raw = False"
| "is_live (Live v) = True"

definition valid :: "'a state \<Rightarrow> nat \<Rightarrow> bool" where
  "valid s this =
     (let a = objects s this in
      a = sentinel \<or>
      (case region (head a) of
         None \<Rightarrow> False
       | Some b \<Rightarrow>
           offset (head a) = 0 \<and> region (tail a) = Some b \<and> region (tailCap a) = Some b \<and>
           offset (tail a) \<le> offset (tailCap a) \<and> b < length (heap s) \<and>
           (case heap s ! b of
              Freed \<Rightarrow> False
            | Block ss \<Rightarrow>
                length ss = offset (tailCap a) \<and> list_all is_live (take (offset (tail a)) ss))))"

text \<open>
  The cursor part alone: \<open>start \<le> liveEnd \<le> capacityEnd\<close> within one region, \<^verbatim>\<open>head\<close>
  at the start of it.
\<close>

definition cursors_ordered :: "DynamicArray \<Rightarrow> bool" where
  "cursors_ordered a =
     (offset (head a) = 0 \<and> region (tail a) = region (head a) \<and>
      region (tailCap a) = region (head a) \<and> offset (tail a) \<le> offset (tailCap a))"

text \<open>
  A container whose block \<open>b\<close> holds the live elements \<open>xs\<close> followed by the slots
  \<open>rest\<close> of its spare capacity.
\<close>

definition rep :: "'a state \<Rightarrow> nat \<Rightarrow> nat \<Rightarrow> 'a list \<Rightarrow> 'a slot list \<Rightarrow> bool" where
  "rep s this b xs rest =
     (objects s this =
        \<lparr>head = Ptr (Some b) 0, tail = Ptr (Some b) (length xs),
         tailCap = Ptr (Some b) (length xs + length rest)\<rparr> \<and>
      b < length (heap s) \<and> heap s ! b = Block (map Live xs @ rest))"

subsection \<open>Programs over the public operations\<close>

definition init_state :: "'a state" where
  "init_state = \<lparr>heap = [], objects = (\<lambda>_. sentinel)\<rparr>"

fun push_all :: "'a state \<Rightarrow> nat \<Rightarrow> 'a list \<Rightarrow> error + 'a state" where
  "push_all s this [] = Inr s"
| "push_all s this (v # vs) = bindE (push_back s this v) (\<lambda>s'. push_all s' this vs)"

datatype 'a operation =
    DefaultConstruct
  | FillConstruct nat 'a
  | CopyConstruct nat
  | MoveConstruct nat
  | CopyAssign nat
  | MoveAssign nat
  | Reserve nat
  | Resize nat 'a
  | PushBackOp 'a
  | PopBack
  | ClearOp
  | Release

fun run :: "'a operation \<Rightarrow> 'a state \<Rightarrow> nat \<Rightarrow> error + 'a state" where
  "run DefaultConstruct s this = construct_default s this"
| "run (FillConstruct n v) s this = construct_fill s this n v"
| "run (CopyConstruct other) s this = construct_copy s this other"
| "run (MoveConstruct other) s this = construct_move s this other"
| "run (CopyAssign other) s this = assign_copy s this other"
| "run (MoveAssign other) s this = assign_move s this other"
| "run (Reserve n) s this = reserve s this n"
| "run (Resize n v) s this = resize s this n v"
| "run (PushBackOp v) s this = push_back s this v"
| "run PopBack s this = pop_back s this"
| "run ClearOp s this = clear s this"
| "run Release s this = bindE (release s this) (\<lambda>(p, s'). Inr s')"

text \<open>
  The operations that start the lifetime of \<^verbatim>\<open>this\<close>, and the object an operation
  takes as \<^verbatim>\<open>other\<close>.
\<close>

fun is_constructor :: "'a operation \<Rightarrow> bool" where
  "is_constructor DefaultConstruct = True"
| "is_constructor (FillConstruct n v) = True"
| "is_constructor (CopyConstruct other) = True"
| "is_constructor (MoveConstruct other) = True"
| "is_constructor _ = False"

fun source :: "'a operation \<Rightarrow> nat option" where
  "source (CopyConstruct other) = Some other"
| "source (MoveConstruct other) = Some other"
| "source (CopyAssign other) = Some other"
| "source (MoveAssign other) = Some other"
| "source _ = None"

subsection \<open>Example containers\<close>

text \<open>A default-constructed object \<open>0\<close> in an empty heap, then a run of \<^verbatim>\<open>push_back\<close>.\<close>

definition built :: "int list \<Rightarrow> error + int state" where
  "built vs = bindE (construct_default init_state 0) (\<lambda>s. push_all s 0 vs)"

text \<open>The state after \<^verbatim>\<open>push_back(1)\<close>: size 1, capacity 1.\<close>

definition one_state :: "int state" where
  "one_state =
     \<lparr>heap = [Block [Live 1]],
      objects = (\<lambda>_. sentinel)
        (0 := \<lparr>head = Ptr (Some 0) 0, tail = Ptr (Some 0) 1, tailCap = Ptr (Some 0) 1\<rparr>)\<rparr>"

text \<open>The state after \<^verbatim>\<open>push_back(1); push_back(2); push_back(3)\<close>: size 3, capacity 4.\<close>

definition three_state :: "int state" where
  "three_state =
     \<lparr>heap = [Block [Live 1], Block [Live 1, Live 2], Block [Live 1, Live 2, Live 3, Raw]],
      objects = (\<lambda>_. sentinel)
        (0 := \<lparr>head = Ptr (Some 2) 0, tail = Ptr (Some 2) 3, tailCap = Ptr (Some 2) 4\<rparr>)\<rparr>"

text \<open>The same after one \<^verbatim>\<open>pop_back()\<close>: size 2, capacity 4.\<close>

definition two_of_four :: "int state" where
  "two_of_four =
     \<lparr>heap = [Block [Live 1], Block [Live 1, Live 2], Block [Live 1, Live 2, Raw, Raw]],
      objects = (\<lambda>_. sentinel)
        (0 := \<lparr>head = Ptr (Some 2) 0, tail = Ptr (Some 2) 2, tailCap = Ptr (Some 2) 4\<rparr>)\<rparr>"

section \<open>Basic facts\<close>

lemma bindE_Inl [simp]: "bindE (Inl e) f = Inl e"
  by (simp add: bindE_def)

lemma bindE_Inr [simp]: "bindE (Inr x) f = f x"
  by (simp add: bindE_def)

lemma bindE_eq_Inr: "bindE m f = Inr y \<longleftrightarrow> (\<exists>x. m = Inr x \<and> f x = Inr y)"
  by (cases m) simp_all

lemma collect_map_Inr: "collect (map Inr xs) = Inr xs"
  by (induction xs) simp_all

lemma ptr_add_Ptr [simp]: "ptr_add (Ptr r i) n = Ptr r (i + n)"
  by (simp add: ptr_add_def)

lemma all_fields:
  "(r :: DynamicArray)\<lparr>head := x, tail := y, tailCap := z\<rparr> =
     \<lparr>head = x, tail = y, tailCap = z\<rparr>"
  by (cases r) simp

lemma set_objects_eq:
  "f = g \<Longrightarrow> (s :: 'a state)\<lparr>objects := f\<rparr> = s\<lparr>objects := g\<rparr>"
  by simp

lemma deref_live:
  assumes "b < length h" "h ! b = Block ss" "i < length ss" "ss ! i = Live v"
  shows "deref h (Ptr (Some b) i) = Inr v"
  using assms by (simp add: deref_def slots_at_def)

lemma construct_slot:
  assumes "b < length h" "h ! b = Block ss" "i < length ss"
  shows "construct h (Ptr (Some b) i) v = Inr (h[b := Block (ss[i := Live v])])"
  using assms by (simp add: construct_def slots_at_def)

lemma destroy_slot:
  assumes "b < length h" "h ! b = Block ss" "i < length ss" "ss ! i = Live v"
  shows "destroy h (Ptr (Some b) i) = Inr (h[b := Block (ss[i := Raw])])"
  using assms by (simp add: destroy_def slots_at_def)

lemma nth_of_take_map:
  assumes "take n ss = map Live xs" "i < n" "n \<le> length ss"
  shows "ss ! i = Live (xs ! i)"
proof -
  have "ss ! i = take n ss ! i" using assms(2) by (simp only: nth_take)
  also have "\<dots> = Live (xs ! i)"
  proof -
    have "length xs = n" using assms by (metis length_map length_take min.absorb2)
    then show ?thesis using assms by simp
  qed
  finally show ?thesis .
qed

lemma live_list: "list_all is_live zs \<Longrightarrow> \<exists>xs. zs = map Live xs"
proof (induction zs)
  case Nil
  then show ?case by simp
next
  case (Cons z zs)
  then obtain xs where "zs = map Live xs" by auto
  moreover obtain v where "z = Live v" using Cons.prems by (cases z) auto
  ultimately have "z # zs = map Live (v # xs)" by simp
  then show ?case by (rule exI)
qed

lemma list_all_live_map [simp]: "list_all is_live (map Live xs)"
  by (induction xs) simp_all

section \<open>The loops\<close>

lemma copy_loop_ok:
  assumes "b < length h" "nb < length h" "b \<noteq> nb" "h ! b = Block ss" "h ! nb = Block ns"
    and "n \<le> length ss" "n \<le> length ns" "take n ss = map Live xs" "i \<le> n"
  shows "copy_loop h (Ptr (Some nb) 0) (Ptr (Some b) 0) i n =
         Inr (h[nb := Block (take i ns @ map Live (drop i xs) @ drop n ns)])"
  using assms
proof (induction "n - i" arbitrary: i h ns)
  case 0
  then have "i = n" by simp
  moreover have "length xs = n" using 0 by (metis length_map length_take min.absorb2)
  moreover have "h[nb := Block ns] = h" using 0 by (metis list_update_id)
  ultimately show ?case by (simp add: copy_loop.simps)
next
  case (Suc k)
  then have lt: "i < n" by simp
  have len: "length xs = n" using Suc.prems by (metis length_map length_take min.absorb2)
  let ?v = "xs ! i"
  let ?ns1 = "ns[i := Live ?v]"
  let ?h1 = "h[nb := Block ?ns1]"
  have rd: "deref h (Ptr (Some b) i) = Inr ?v"
    using Suc.prems lt by (intro deref_live[where ss = ss]) (auto simp: nth_of_take_map)
  have wr: "construct h (Ptr (Some nb) i) ?v = Inr ?h1"
    using Suc.prems lt by (intro construct_slot) auto
  have step: "copy_loop h (Ptr (Some nb) 0) (Ptr (Some b) 0) i n =
      copy_loop ?h1 (Ptr (Some nb) 0) (Ptr (Some b) 0) (Suc i) n"
    using lt rd wr by (subst copy_loop.simps) simp
  have ih: "copy_loop ?h1 (Ptr (Some nb) 0) (Ptr (Some b) 0) (Suc i) n =
      Inr (?h1[nb := Block (take (Suc i) ?ns1 @ map Live (drop (Suc i) xs) @ drop n ?ns1)])"
    using Suc.prems Suc.hyps(2) lt by (intro Suc.hyps(1)) auto
  have t: "take (Suc i) ?ns1 = take i ns @ [Live ?v]"
    using Suc.prems lt by (simp add: take_Suc_conv_app_nth)
  have d: "drop n ?ns1 = drop n ns" using lt by simp
  have m: "map Live (drop i xs) = Live ?v # map Live (drop (Suc i) xs)"
    using lt len by (simp add: Cons_nth_drop_Suc flip: list.map(2))
  show ?case unfolding step ih t d m by simp
qed

lemma fill_loop_ok:
  assumes "b < length h" "h ! b = Block ns" "i \<le> n" "n \<le> length ns"
  shows "fill_loop h (Ptr (Some b) 0) i n v =
         Inr (h[b := Block (take i ns @ replicate (n - i) (Live v) @ drop n ns)])"
  using assms
proof (induction "n - i" arbitrary: i h ns)
  case 0
  then have "i = n" by simp
  moreover have "h[b := Block ns] = h" using 0 by (metis list_update_id)
  ultimately show ?case by (simp add: fill_loop.simps)
next
  case (Suc k)
  then have lt: "i < n" by simp
  let ?ns1 = "ns[i := Live v]"
  let ?h1 = "h[b := Block ?ns1]"
  have wr: "construct h (Ptr (Some b) i) v = Inr ?h1"
    using Suc.prems lt by (intro construct_slot) auto
  have step: "fill_loop h (Ptr (Some b) 0) i n v = fill_loop ?h1 (Ptr (Some b) 0) (Suc i) n v"
    using lt wr by (subst fill_loop.simps) simp
  have ih: "fill_loop ?h1 (Ptr (Some b) 0) (Suc i) n v =
      Inr (?h1[b := Block (take (Suc i) ?ns1 @ replicate (n - Suc i) (Live v) @ drop n ?ns1)])"
    using Suc.prems Suc.hyps(2) lt by (intro Suc.hyps(1)) auto
  have t: "take (Suc i) ?ns1 = take i ns @ [Live v]"
    using Suc.prems lt by (simp add: take_Suc_conv_app_nth)
  have d: "drop n ?ns1 = drop n ns" using lt by simp
  have "n - i = Suc (n - Suc i)" using lt by arith
  then have r: "replicate (n - i) (Live v) = Live v # replicate (n - Suc i) (Live v)"
    by (metis replicate_Suc)
  show ?case unfolding step ih t d r by simp
qed

lemma destroy_loop_ok:
  assumes "b < length h" "h ! b = Block (map Live (take i xs) @ rest)" "lo \<le> i" "i \<le> length xs"
  shows "destroy_loop h (Ptr (Some b) 0) i lo =
         Inr (h[b := Block (map Live (take lo xs) @ replicate (i - lo) Raw @ rest)])"
  using assms
proof (induction "i - lo" arbitrary: i h rest)
  case 0
  then have "i = lo" by simp
  moreover have "h[b := Block (map Live (take i xs) @ rest)] = h"
    using 0 by (metis list_update_id)
  ultimately show ?case by (simp add: destroy_loop.simps)
next
  case (Suc k)
  then obtain j where j: "i = Suc j" "lo \<le> j" "j < length xs" by (cases i) auto
  let ?ss = "map Live (take i xs) @ rest"
  have tk: "take i xs = take j xs @ [xs ! j]"
    using j by (simp add: take_Suc_conv_app_nth)
  have upd: "?ss[j := Raw] = map Live (take j xs) @ Raw # rest"
    using j unfolding tk by (simp add: list_update_append)
  let ?h1 = "h[b := Block (map Live (take j xs) @ Raw # rest)]"
  have nth: "?ss ! j = Live (xs ! j)"
    using j unfolding tk by (simp add: nth_append)
  have ds: "destroy h (Ptr (Some b) j) = Inr ?h1"
    using destroy_slot[OF Suc.prems(1) Suc.prems(2) _ nth] j upd by simp
  have step: "destroy_loop h (Ptr (Some b) 0) i lo = destroy_loop ?h1 (Ptr (Some b) 0) j lo"
    using j ds by (subst destroy_loop.simps) simp
  have ih: "destroy_loop ?h1 (Ptr (Some b) 0) j lo =
      Inr (?h1[b := Block (map Live (take lo xs) @ replicate (j - lo) Raw @ Raw # rest)])"
    using Suc.prems Suc.hyps(2) j by (intro Suc.hyps(1)) auto
  have r: "replicate (i - lo) Raw = replicate (j - lo) Raw @ [Raw :: 'a slot]"
    using j by (simp add: Suc_diff_le replicate_append_same)
  show ?case unfolding step ih r by simp
qed

lemma traverse_block:
  assumes "b < length h" "h ! b = Block (map Live xs @ rest)" "i \<le> length xs"
  shows "traverse h (Ptr (Some b) i) (Ptr (Some b) (length xs)) = Inr (drop i xs)"
  using assms(3)
proof (induction "length xs - i" arbitrary: i)
  case 0
  then show ?case by (simp add: traverse.simps)
next
  case (Suc k)
  then have lt: "i < length xs" by simp
  have rd: "deref h (Ptr (Some b) i) = Inr (xs ! i)"
    using assms(1,2) lt by (simp add: deref_def slots_at_def nth_append)
  have ih: "traverse h (Ptr (Some b) (Suc i)) (Ptr (Some b) (length xs)) = Inr (drop (Suc i) xs)"
    using Suc lt by (intro Suc.hyps(1)) auto
  show ?case using lt rd ih
    by (subst traverse.simps) (simp add: Cons_nth_drop_Suc)
qed

section \<open>Well-formed containers\<close>

lemma valid_iff:
  "valid s this \<longleftrightarrow> objects s this = sentinel \<or> (\<exists>b xs rest. rep s this b xs rest)"
proof
  assume v: "valid s this"
  show "objects s this = sentinel \<or> (\<exists>b xs rest. rep s this b xs rest)"
  proof (cases "objects s this = sentinel")
    case True
    then show ?thesis by simp
  next
    case False
    obtain hp tp cp where a: "objects s this = \<lparr>head = hp, tail = tp, tailCap = cp\<rparr>"
      by (cases "objects s this") auto
    from v False a obtain b ss where
      f: "region hp = Some b" "offset hp = 0" "region tp = Some b" "region cp = Some b"
         "offset tp \<le> offset cp" "b < length (heap s)" "heap s ! b = Block ss"
         "length ss = offset cp" "list_all is_live (take (offset tp) ss)"
      by (auto simp: valid_def Let_def split: option.splits block.splits)
    obtain xs where xs: "take (offset tp) ss = map Live xs" using f(9) live_list by blast
    have len: "length xs = offset tp" using xs f by (metis length_map length_take min.absorb2)
    have ss: "ss = map Live xs @ drop (offset tp) ss" using xs by (metis append_take_drop_id)
    have "rep s this b xs (drop (offset tp) ss)"
      unfolding rep_def a using f len ss by (cases hp; cases tp; cases cp) auto
    then show ?thesis by blast
  qed
next
  assume "objects s this = sentinel \<or> (\<exists>b xs rest. rep s this b xs rest)"
  then show "valid s this"
    by (auto simp: valid_def rep_def Let_def)
qed

lemma rep_valid: "rep s this b xs rest \<Longrightarrow> valid s this"
  unfolding valid_iff by blast

lemma sentinel_size: "objects s this = sentinel \<Longrightarrow> size_da s this = Inr 0"
  by (simp add: size_da_def sentinel_def nullptr_def ptr_diff_def size_type_of_def)

lemma sentinel_capacity: "objects s this = sentinel \<Longrightarrow> capacity s this = Inr 0"
  by (simp add: capacity_def sentinel_def nullptr_def ptr_diff_def size_type_of_def)

lemma sentinel_elements: "objects s this = sentinel \<Longrightarrow> elements s this = Inr []"
  by (simp add: elements_def sentinel_size)

lemma sentinel_iterate: "objects s this = sentinel \<Longrightarrow> iterate s this = Inr []"
  by (simp add: iterate_def begin_da_def end_da_def sentinel_def traverse.simps)

lemma rep_size: "rep s this b xs rest \<Longrightarrow> size_da s this = Inr (length xs)"
  by (simp add: rep_def size_da_def ptr_diff_def size_type_of_def)

lemma rep_capacity: "rep s this b xs rest \<Longrightarrow> capacity s this = Inr (length xs + length rest)"
  by (simp add: rep_def capacity_def ptr_diff_def size_type_of_def)

lemma rep_subscript:
  "rep s this b xs rest \<Longrightarrow> i < length xs \<Longrightarrow> subscript s this i = Inr (xs ! i)"
  by (simp add: rep_def subscript_def deref_def slots_at_def nth_append)

lemma rep_elements:
  assumes "rep s this b xs rest"
  shows "elements s this = Inr xs"
proof -
  have "map (subscript s this) [0..<length xs] = map (\<lambda>i. Inr (xs ! i)) [0..<length xs]"
    using assms by (simp add: rep_subscript)
  also have "\<dots> = map Inr (map ((!) xs) [0..<length xs])" by simp
  also have "\<dots> = map Inr xs" by (simp only: map_nth)
  finally show ?thesis using assms by (simp add: elements_def rep_size collect_map_Inr)
qed

lemma rep_iterate: "rep s this b xs rest \<Longrightarrow> iterate s this = Inr xs"
  using traverse_block[of b "heap s" xs rest 0]
  by (simp add: iterate_def begin_da_def end_da_def rep_def)

lemma elements_block:
  assumes "head (objects s this) = Ptr (Some b) 0"
    and "tail (objects s this) = Ptr (Some b) (length xs)"
    and "b < length (heap s)" "heap s ! b = Block (map Live xs @ rest)"
  shows "size_da s this = Inr (length xs)" "elements s this = Inr xs"
proof -
  show sz: "size_da s this = Inr (length xs)"
    using assms by (simp add: size_da_def ptr_diff_def size_type_of_def)
  have "subscript s this i = Inr (xs ! i)" if "i < length xs" for i
    using assms that by (simp add: subscript_def deref_def slots_at_def nth_append)
  then have "map (subscript s this) [0..<length xs] = map (\<lambda>i. Inr (xs ! i)) [0..<length xs]"
    by simp
  also have "\<dots> = map Inr (map ((!) xs) [0..<length xs])" by simp
  also have "\<dots> = map Inr xs" by (simp only: map_nth)
  finally show "elements s this = Inr xs"
    by (simp add: elements_def sz collect_map_Inr)
qed

text \<open>Every well-formed container has elements to read, as many as its size.\<close>

lemma valid_elements:
  assumes "valid s this"
  obtains xs where "elements s this = Inr xs" "size_da s this = Inr (length xs)"
proof -
  from assms consider "objects s this = sentinel" | b xs rest where "rep s this b xs rest"
    unfolding valid_iff by blast
  then show ?thesis
  proof cases
    case 1
    then show ?thesis using that[of "[]"] by (simp add: sentinel_elements sentinel_size)
  next
    case 2
    then show ?thesis using that[of xs] by (simp add: rep_elements rep_size)
  qed
qed

lemma elements_cong:
  assumes "heap s' = heap s" "objects s' b = objects s a"
  shows "elements s' b = elements s a"
proof -
  have "size_da s' b = size_da s a" using assms by (simp add: size_da_def)
  moreover have "subscript s' b = subscript s a" using assms by (simp add: subscript_def fun_eq_iff)
  ultimately show ?thesis by (simp add: elements_def)
qed

lemma iterate_cong:
  assumes "heap s' = heap s" "objects s' b = objects s a"
  shows "iterate s' b = iterate s a"
  using assms by (simp add: iterate_def begin_da_def end_da_def)

lemma valid_cong:
  assumes "heap s' = heap s" "objects s' b = objects s a"
  shows "valid s' b = valid s a"
  unfolding valid_def assms by (rule refl)

lemma ordered_size:
  "cursors_ordered (objects s x) \<Longrightarrow> size_da s x = Inr (offset (tail (objects s x)))"
  by (simp add: cursors_ordered_def size_da_def ptr_diff_def size_type_of_def)

lemma ordered_capacity:
  "cursors_ordered (objects s x) \<Longrightarrow> capacity s x = Inr (offset (tailCap (objects s x)))"
  by (simp add: cursors_ordered_def capacity_def ptr_diff_def size_type_of_def)

lemma ordered_sentinel [simp]: "cursors_ordered sentinel"
  by (simp add: cursors_ordered_def sentinel_def nullptr_def)

section \<open>The example containers\<close>

lemmas eval_defs =
  init_state_def sentinel_def nullptr_def push_back_def PushBack_def construct_default_def
  size_da_def capacity_def ptr_diff_def ptr_prev_def size_type_of_def AmortizedGrow_def
  AmortizedGrowSize_def Realloc_def allocate_def copy_loop.simps fill_loop.simps
  destroy_loop.simps construct_def destroy_def deref_def slots_at_def set_tail_def set_head_def
  set_tailCap_def subscript_def RangeGuard_def at_def eval_nat_numeral

lemmas eval_more =
  Init_copy_def Init_fill_def construct_copy_def assign_copy_def reserve_def resize_def
  Reallocate_def low_def
  Clear_def clear_def deallocate_def elements_def Let_def

lemma built_one: "built [1] = Inr one_state"
  by (simp add: built_def one_state_def eval_defs)

lemma built_three: "built [1, 2, 3] = Inr three_state"
  by (simp add: built_def three_state_def eval_defs)

lemma pop_three: "pop_back three_state 0 = Inr two_of_four"
  by (simp add: pop_back_def three_state_def two_of_four_def eval_defs)

lemma valid_three: "valid three_state 0"
  by (simp add: valid_def three_state_def sentinel_def nullptr_def)

lemma valid_two_of_four: "valid two_of_four 0"
  by (simp add: valid_def two_of_four_def sentinel_def nullptr_def)

section \<open>Reallocation\<close>

lemma Realloc_sentinel:
  assumes "objects s this = sentinel"
  shows "Realloc s this m =
    Inr (s\<lparr>heap := heap s @ [Block (replicate m Raw)],
           objects := (objects s)(this :=
             \<lparr>head = Ptr (Some (length (heap s))) 0, tail = Ptr (Some (length (heap s))) 0,
              tailCap = Ptr (Some (length (heap s))) m\<rparr>)\<rparr>)"
  using assms
  by (simp add: Realloc_def allocate_def sentinel_size copy_loop.simps)

lemma Realloc_rep:
  assumes "rep s this b xs rest" "length xs \<le> m"
  shows "Realloc s this m =
    Inr (s\<lparr>heap := heap s @ [Block (map Live xs @ replicate (m - length xs) Raw)],
           objects := (objects s)(this :=
             \<lparr>head = Ptr (Some (length (heap s))) 0,
              tail = Ptr (Some (length (heap s))) (length xs),
              tailCap = Ptr (Some (length (heap s))) m\<rparr>)\<rparr>)"
proof -
  let ?L = "length (heap s)"
  let ?h1 = "heap s @ [Block (replicate m Raw)]"
  have hd: "head (objects s this) = Ptr (Some b) 0" and b: "b < ?L"
    and blk: "heap s ! b = Block (map Live xs @ rest)"
    using assms by (simp_all add: rep_def)
  have "copy_loop ?h1 (Ptr (Some ?L) 0) (Ptr (Some b) 0) 0 (length xs) =
        Inr (?h1[?L := Block (take 0 (replicate m Raw) @ map Live (drop 0 xs) @
                               drop (length xs) (replicate m Raw))])"
    using b blk assms(2)
    by (intro copy_loop_ok[where ss = "map Live xs @ rest"]) (auto simp: nth_append)
  then have "copy_loop ?h1 (Ptr (Some ?L) 0) (Ptr (Some b) 0) 0 (length xs) =
        Inr (heap s @ [Block (map Live xs @ replicate (m - length xs) Raw)])"
    by simp
  then show ?thesis
    using assms hd by (simp add: Realloc_def allocate_def rep_size)
qed

lemma Realloc_valid:
  assumes "valid s this" "elements s this = Inr xs" "length xs \<le> m"
  shows "Realloc s this m =
    Inr (s\<lparr>heap := heap s @ [Block (map Live xs @ replicate (m - length xs) Raw)],
           objects := (objects s)(this :=
             \<lparr>head = Ptr (Some (length (heap s))) 0,
              tail = Ptr (Some (length (heap s))) (length xs),
              tailCap = Ptr (Some (length (heap s))) m\<rparr>)\<rparr>)"
proof -
  from assms(1) consider "objects s this = sentinel" | b ys rest where "rep s this b ys rest"
    unfolding valid_iff by blast
  then show ?thesis
  proof cases
    case 1
    then have "xs = []" using assms(2) by (simp add: sentinel_elements)
    then show ?thesis using Realloc_sentinel[OF 1, of m] by simp
  next
    case 2
    then have "ys = xs" using assms(2) by (simp add: rep_elements)
    then show ?thesis using Realloc_rep[of s this b xs rest m] 2 assms(3) by simp
  qed
qed

lemma Realloc_cursors:
  assumes "Realloc s this m = Inr s'"
  shows "\<exists>n. size_da s this = Inr n \<and>
           objects s' = (objects s)(this :=
             \<lparr>head = Ptr (Some (length (heap s))) 0, tail = Ptr (Some (length (heap s))) n,
              tailCap = Ptr (Some (length (heap s))) m\<rparr>)"
  using assms by (auto simp: Realloc_def allocate_def bindE_eq_Inr)

section \<open>Checked access\<close>

lemma at_rejects_iff:
  "at s this i = Inl OutOfRange \<longleftrightarrow> (\<exists>n. size_da s this = Inr n \<and> n < i)"
proof (cases "size_da s this")
  case (Inl e)
  then show ?thesis
    by (auto simp: at_def RangeGuard_def size_da_def ptr_diff_def bindE_def
          split: sum.splits if_splits)
next
  case (Inr n)
  have "subscript s this i \<noteq> Inl OutOfRange"
    by (simp add: subscript_def deref_def split: option.splits slot.splits)
  then show ?thesis using Inr by (simp add: at_def RangeGuard_def)
qed

text \<open>What \<^verbatim>\<open>at\<close> does on a well-formed container below its size.\<close>

lemma at_in_range:
  assumes "rep s this b xs rest" "i < length xs"
  shows "at s this i = Inr (xs ! i)"
  using assms by (simp add: at_def RangeGuard_def rep_size rep_subscript)

lemma at_last:
  assumes "rep s this b xs rest" "xs \<noteq> []"
  shows "at s this (length xs - 1) = Inr (last xs)"
  using assms at_in_range[OF assms(1), of "length xs - 1"] by (simp add: last_conv_nth)

lemma at_size_passes_guard:
  assumes "size_da s this = Inr n"
  shows "RangeGuard s this n = Inr ()" "at s this n = subscript s this n"
  using assms by (simp_all add: at_def RangeGuard_def)

text \<open>
  C1.  On the container \<open>[1, 2, 3]\<close> (size 3, capacity 4, built by three
  \<^verbatim>\<open>push_back\<close>) \<^verbatim>\<open>RangeGuard(3)\<close> passes: \<^verbatim>\<open>at(size())\<close> is not rejected and goes on
  to \<^verbatim>\<open>operator[](3)\<close>, the raw slot past the last element.  The guard rejects from index
  \<open>size() + 1\<close> on only.
\<close>

theorem at_size_not_rejected:
  "built [1, 2, 3] = Inr three_state \<and> size_da three_state 0 = Inr 3 \<and>
   RangeGuard three_state 0 3 = Inr () \<and> at three_state 0 3 = Inl Undefined \<and>
   at three_state 0 2 = Inr 3 \<and> at three_state 0 4 = Inl OutOfRange"
  by (simp add: built_three) (simp add: three_state_def eval_defs)

section \<open>Reservation\<close>

text \<open>
  What \<^verbatim>\<open>reserve\<close> does on a well-formed container: nothing up to \<^verbatim>\<open>size()\<close>, and a
  move into a fresh block of exactly \<open>n\<close> slots above it, whatever the capacity was.
\<close>

lemma reserve_noop:
  assumes "size_da s this = Inr sz" "n \<le> sz"
  shows "reserve s this n = Inr s"
  using assms by (simp add: reserve_def Reallocate_def)

lemma reserve_reallocates:
  assumes "valid s this" "elements s this = Inr xs" "length xs < n"
  shows "\<exists>s'. reserve s this n = Inr s' \<and> rep s' this (length (heap s)) xs
           (replicate (n - length xs) Raw) \<and>
           size_da s' this = Inr (length xs) \<and> capacity s' this = Inr n \<and>
           elements s' this = Inr xs"
proof -
  obtain ys where "elements s this = Inr ys" "size_da s this = Inr (length ys)"
    using assms(1) by (rule valid_elements)
  then have sz: "size_da s this = Inr (length xs)" using assms(2) by simp
  let ?s' = "s\<lparr>heap := heap s @ [Block (map Live xs @ replicate (n - length xs) Raw)],
           objects := (objects s)(this :=
             \<lparr>head = Ptr (Some (length (heap s))) 0,
              tail = Ptr (Some (length (heap s))) (length xs),
              tailCap = Ptr (Some (length (heap s))) n\<rparr>)\<rparr>"
  have r: "reserve s this n = Inr ?s'"
    using assms Realloc_valid[OF assms(1,2), of n] by (simp add: reserve_def Reallocate_def sz)
  have rp: "rep ?s' this (length (heap s)) xs (replicate (n - length xs) Raw)"
    using assms(3) by (simp add: rep_def)
  show ?thesis
    using r rp rep_size[OF rp] rep_capacity[OF rp] rep_elements[OF rp] assms(3) by simp
qed

text \<open>
  C2.  The container \<open>[1, 2]\<close> with capacity 4 (three \<^verbatim>\<open>push_back\<close>, one
  \<^verbatim>\<open>pop_back\<close>): \<^verbatim>\<open>reserve(3)\<close>, a request below the capacity, moves the elements to a
  fresh block of 3 slots and the capacity drops from 4 to 3.
\<close>

theorem reserve_below_capacity_reallocates:
  "pop_back three_state 0 = Inr two_of_four \<and>
   size_da two_of_four 0 = Inr 2 \<and> capacity two_of_four 0 = Inr 4 \<and>
   (\<exists>s'. reserve two_of_four 0 3 = Inr s' \<and> size_da s' 0 = Inr 2 \<and>
      capacity s' 0 = Inr 3 \<and> head (objects s' 0) = Ptr (Some 3) 0 \<and>
      heap s' ! 3 = Block [Live 1, Live 2, Raw])"
  by (simp add: pop_three) (simp add: two_of_four_def eval_defs eval_more)

section \<open>Copy construction and copy assignment\<close>

text \<open>
  What the two copies do for a well-formed source and a different destination: a block
  of \<^verbatim>\<open>other.size()\<close> slots with the elements of \<^verbatim>\<open>other\<close>; the constructor then takes
  the capacity of \<^verbatim>\<open>other\<close>, the assignment the size.
\<close>

lemma Init_copy_valid:
  assumes "valid s other" "elements s other = Inr xs"
  shows "Init_copy s other =
    Inr (Ptr (Some (length (heap s))) 0, s\<lparr>heap := heap s @ [Block (map Live xs)]\<rparr>)"
proof -
  obtain ys where "elements s other = Inr ys" "size_da s other = Inr (length ys)"
    using assms(1) by (rule valid_elements)
  then have sz: "size_da s other = Inr (length xs)" using assms(2) by simp
  let ?L = "length (heap s)"
  let ?h1 = "heap s @ [Block (replicate (length xs) Raw)]"
  have cl: "copy_loop ?h1 (Ptr (Some ?L) 0) (head (objects s other)) 0 (length xs) =
      Inr (heap s @ [Block (map Live xs)])"
  proof -
    from assms(1) consider "objects s other = sentinel" | b ys rest where "rep s other b ys rest"
      unfolding valid_iff by blast
    then show ?thesis
    proof cases
      case 1
      then have "xs = []" using assms(2) by (simp add: sentinel_elements)
      then show ?thesis by (simp add: copy_loop.simps)
    next
      case 2
      then have ys: "ys = xs" using assms(2) by (simp add: rep_elements)
      have hd: "head (objects s other) = Ptr (Some b) 0" and b: "b < ?L"
        and blk: "heap s ! b = Block (map Live xs @ rest)"
        using 2 ys by (simp_all add: rep_def)
      have "copy_loop ?h1 (Ptr (Some ?L) 0) (Ptr (Some b) 0) 0 (length xs) =
        Inr (?h1[?L := Block (take 0 (replicate (length xs) Raw) @ map Live (drop 0 xs) @
                               drop (length xs) (replicate (length xs) Raw))])"
        using b blk
        by (intro copy_loop_ok[where ss = "map Live xs @ rest"]) (auto simp: nth_append)
      then show ?thesis using hd by simp
    qed
  qed
  show ?thesis by (simp add: Init_copy_def sz allocate_def cl)
qed

lemma construct_copy_valid:
  assumes "valid s other" "elements s other = Inr xs" "capacity s other = Inr c" "this \<noteq> other"
  shows "\<exists>s'. construct_copy s this other = Inr s' \<and>
           heap s' = heap s @ [Block (map Live xs)] \<and>
           size_da s' this = Inr (length xs) \<and> capacity s' this = Inr c \<and>
           elements s' this = Inr xs \<and> objects s' other = objects s other"
proof -
  obtain ys where "elements s other = Inr ys" "size_da s other = Inr (length ys)"
    using assms(1) by (rule valid_elements)
  then have sz: "size_da s other = Inr (length xs)" using assms(2) by simp
  let ?L = "length (heap s)"
  let ?s' = "s\<lparr>heap := heap s @ [Block (map Live xs)],
               objects := (objects s)(this :=
                 \<lparr>head = Ptr (Some ?L) 0, tail = Ptr (Some ?L) (length xs),
                  tailCap = Ptr (Some ?L) c\<rparr>)\<rparr>"
  have sz1: "size_da (set_head (s\<lparr>heap := h\<rparr>) this p) other = Inr (length xs)" for h p
    using sz assms(4) by (simp add: size_da_def set_head_def)
  have cp1: "capacity (set_tail (set_head (s\<lparr>heap := h\<rparr>) this p) this q) other = Inr c" for h p q
    using assms(3,4) by (simp add: capacity_def set_head_def set_tail_def)
  have r: "construct_copy s this other = Inr ?s'"
    unfolding construct_copy_def Init_copy_valid[OF assms(1,2)]
    by (simp add: Let_def sz1 cp1) (simp add: set_head_def set_tail_def set_tailCap_def all_fields)
  have e: "size_da ?s' this = Inr (length xs)" "elements ?s' this = Inr xs"
    by (rule elements_block[where b = ?L and rest = "[]"]; simp)+
  have c: "capacity ?s' this = Inr c"
    by (simp add: capacity_def ptr_diff_def size_type_of_def)
  show ?thesis using r e c assms(4) by simp
qed

text \<open>
  C3.  Copy-constructing object \<open>1\<close> from the container \<open>[1, 2, 3]\<close> of capacity 4
  allocates a block of 3 slots, and the copy reports capacity 4, the capacity of the
  source: \<^verbatim>\<open>tailCap\<close> is one slot past the end of the block.
\<close>

theorem copy_construct_capacity:
  "size_da three_state 0 = Inr 3 \<and> capacity three_state 0 = Inr 4 \<and>
   (\<exists>s'. construct_copy three_state 1 0 = Inr s' \<and>
      head (objects s' 1) = Ptr (Some 3) 0 \<and> heap s' ! 3 = Block [Live 1, Live 2, Live 3] \<and>
      size_da s' 1 = Inr 3 \<and> capacity s' 1 = Inr 4 \<and> \<not> valid s' 1 \<and>
      push_back s' 1 4 = Inl Undefined)"
  by (simp add: three_state_def eval_defs eval_more valid_def)

lemma assign_copy_valid:
  assumes "valid s other" "elements s other = Inr xs" "this \<noteq> other"
  shows "\<exists>s'. assign_copy s this other = Inr s' \<and>
           rep s' this (length (heap s)) xs [] \<and> objects s' other = objects s other \<and>
           elements s' other = Inr xs"
proof -
  obtain ys where "elements s other = Inr ys" "size_da s other = Inr (length ys)"
    using assms(1) by (rule valid_elements)
  then have sz: "size_da s other = Inr (length xs)" using assms(2) by simp
  let ?L = "length (heap s)"
  let ?s' = "s\<lparr>heap := heap s @ [Block (map Live xs)],
               objects := (objects s)(this :=
                 \<lparr>head = Ptr (Some ?L) 0, tail = Ptr (Some ?L) (length xs),
                  tailCap = Ptr (Some ?L) (length xs)\<rparr>)\<rparr>"
  have sz1: "size_da (set_head (s\<lparr>heap := h\<rparr>) this p) other = Inr (length xs)" for h p
    using sz assms(3) by (simp add: size_da_def set_head_def)
  have r: "assign_copy s this other = Inr ?s'"
    unfolding assign_copy_def Init_copy_valid[OF assms(1,2)]
    by (simp add: Let_def sz1) (simp add: set_head_def set_tail_def set_tailCap_def all_fields)
  have rp: "rep ?s' this ?L xs []" by (simp add: rep_def)
  have eo: "elements ?s' other = Inr xs"
  proof -
    from assms(1) consider "objects s other = sentinel" | b ys rest where "rep s other b ys rest"
      unfolding valid_iff by blast
    then show ?thesis
    proof cases
      case 1
      then have "xs = []" using assms(2) by (simp add: sentinel_elements)
      moreover have "objects ?s' other = sentinel" using 1 assms(3) by simp
      ultimately show ?thesis by (simp only: sentinel_elements)
    next
      case 2
      then have "ys = xs" using assms(2) by (simp add: rep_elements)
      then have "rep ?s' other b xs rest"
        using 2 assms(3) by (simp add: rep_def nth_append)
      then show ?thesis by (rule rep_elements)
    qed
  qed
  show ?thesis using r rp eo assms(3) by simp
qed

text \<open>
  C8.  Copy-assigning the container \<open>[1, 2, 3]\<close> to itself: \<^verbatim>\<open>head\<close> is replaced by the
  fresh copy first, and \<^verbatim>\<open>other.size()\<close>, with \<^verbatim>\<open>other\<close> the object itself, then
  subtracts the new \<^verbatim>\<open>head\<close> from the old \<^verbatim>\<open>tail\<close>, pointers into two allocations.
  Assigning it to another object does copy it.
\<close>

theorem self_copy_assign_undefined:
  "assign_copy three_state 0 0 = Inl Undefined \<and>
   (\<exists>s'. assign_copy three_state 1 0 = Inr s' \<and> size_da s' 1 = Inr 3 \<and>
      elements s' 1 = Inr [1, 2, 3] \<and> objects s' 0 = objects three_state 0)"
  by (simp add: three_state_def eval_defs eval_more)

section \<open>Move construction and move assignment\<close>

lemma construct_move_distinct:
  assumes "a \<noteq> b"
  shows "construct_move s b a =
    Inr (s\<lparr>objects := (objects s)(b := objects s a, a := sentinel)\<rparr>)"
  using assms
  by (auto simp: construct_move_def Let_def set_head_def set_tail_def set_tailCap_def
        sentinel_def all_fields fun_eq_iff intro!: set_objects_eq)

lemma assign_move_distinct:
  assumes "a \<noteq> b"
  shows "assign_move s b a =
    Inr (s\<lparr>objects := (objects s)(b := objects s a, a := sentinel)\<rparr>)"
  using assms
  by (auto simp: assign_move_def Let_def set_head_def set_tail_def set_tailCap_def
        sentinel_def all_fields fun_eq_iff intro!: set_objects_eq)

lemma assign_move_self:
  "assign_move s a a = Inr (s\<lparr>objects := (objects s)(a := sentinel)\<rparr>)"
  by (simp add: assign_move_def Let_def set_head_def set_tail_def set_tailCap_def sentinel_def
        all_fields)

text \<open>
  C4.  Moving container \<open>a\<close> into another object \<open>b\<close>, by the move constructor or by move
  assignment, returns; afterwards \<open>a\<close> is the empty sentinel with size and capacity 0,
  \<open>b\<close> has the three cursors \<open>a\<close> had, the heap is untouched (no element is constructed,
  copied or destroyed), and \<open>b\<close> reads, by index and by iteration, what \<open>a\<close> read before.
\<close>

theorem move_transfer:
  assumes "a \<noteq> b"
  shows "(\<exists>s'. construct_move s b a = Inr s' \<and>
            objects s' a = sentinel \<and> size_da s' a = Inr 0 \<and> capacity s' a = Inr 0 \<and>
            objects s' b = objects s a \<and> heap s' = heap s \<and> valid s' b = valid s a \<and>
            elements s' b = elements s a \<and> iterate s' b = iterate s a) \<and>
         (\<exists>s'. assign_move s b a = Inr s' \<and>
            objects s' a = sentinel \<and> size_da s' a = Inr 0 \<and> capacity s' a = Inr 0 \<and>
            objects s' b = objects s a \<and> heap s' = heap s \<and> valid s' b = valid s a \<and>
            elements s' b = elements s a \<and> iterate s' b = iterate s a)"
proof -
  let ?s' = "s\<lparr>objects := (objects s)(b := objects s a, a := sentinel)\<rparr>"
  have a: "objects ?s' a = sentinel" by simp
  have b: "objects ?s' b = objects s a" using assms by simp
  have h: "heap ?s' = heap s" by simp
  have "objects ?s' a = sentinel \<and> size_da ?s' a = Inr 0 \<and> capacity ?s' a = Inr 0 \<and>
        objects ?s' b = objects s a \<and> heap ?s' = heap s \<and> valid ?s' b = valid s a \<and>
        elements ?s' b = elements s a \<and> iterate ?s' b = iterate s a"
    using a b h sentinel_size[OF a] sentinel_capacity[OF a] elements_cong[OF h b]
      iterate_cong[OF h b] valid_cong[OF h b] by blast
  then show ?thesis
    by (simp only: construct_move_distinct[OF assms] assign_move_distinct[OF assms]) blast
qed

theorem move_transfer_witness:
  "(0 :: nat) \<noteq> 1 \<and>
   (\<exists>s'. assign_move three_state 1 0 = Inr s' \<and> objects s' 0 = sentinel \<and>
      size_da s' 0 = Inr 0 \<and> capacity s' 0 = Inr 0 \<and> valid s' 1 \<and>
      elements s' 1 = Inr [1, 2, 3] \<and> iterate s' 1 = Inr [1, 2, 3]) \<and>
   (\<exists>s'. construct_move three_state 1 0 = Inr s' \<and> objects s' 0 = sentinel \<and>
      size_da s' 0 = Inr 0 \<and> capacity s' 0 = Inr 0 \<and> valid s' 1 \<and>
      elements s' 1 = Inr [1, 2, 3] \<and> iterate s' 1 = Inr [1, 2, 3])"
proof -
  have h: "(0 :: nat) \<noteq> 1" by simp
  have r: "rep three_state 0 2 [1, 2, 3] [Raw]" by (simp add: rep_def three_state_def)
  note e = rep_elements[OF r] rep_iterate[OF r] valid_three
  from move_transfer[OF h, of three_state] e show ?thesis by auto
qed

text \<open>
  C10.  Move-assigning a container to itself returns and leaves it the empty sentinel:
  size 0, capacity 0, no element readable; the block it owned stays in the heap, no
  longer referenced by the object.
\<close>

theorem self_move_assign_empties:
  "\<exists>s'. assign_move s a a = Inr s' \<and> objects s' a = sentinel \<and>
     size_da s' a = Inr 0 \<and> capacity s' a = Inr 0 \<and> elements s' a = Inr [] \<and>
     iterate s' a = Inr [] \<and> heap s' = heap s"
  by (simp add: assign_move_self sentinel_size sentinel_capacity sentinel_elements
        sentinel_iterate)

section \<open>Insertion at the tail\<close>

lemma PushBack_room:
  assumes "rep s this b xs (r # rest)"
  shows "PushBack s this v =
    Inr (s\<lparr>heap := (heap s)[b := Block (map Live (xs @ [v]) @ rest)],
           objects := (objects s)(this :=
             \<lparr>head = Ptr (Some b) 0, tail = Ptr (Some b) (Suc (length xs)),
              tailCap = Ptr (Some b) (Suc (length xs + length rest))\<rparr>)\<rparr>)"
proof -
  have sz: "size_da s this = Inr (length xs)" using assms by (rule rep_size)
  have cp: "capacity s this = Inr (length xs + length (r # rest))" using assms by (rule rep_capacity)
  have tl: "tail (objects s this) = Ptr (Some b) (length xs)" using assms by (simp add: rep_def)
  have wr: "construct (heap s) (Ptr (Some b) (length xs)) v =
      Inr ((heap s)[b := Block ((map Live xs @ r # rest)[length xs := Live v])])"
    using assms by (intro construct_slot) (auto simp: rep_def)
  have upd: "(map Live xs @ r # rest)[length xs := Live v] = map Live (xs @ [v]) @ rest"
    by (simp add: list_update_append)
  show ?thesis
    using assms by (simp add: PushBack_def sz cp tl wr upd set_tail_def rep_def)
qed

lemma construct_fresh:
  "construct (h @ [Block (map Live xs @ Raw # rest)]) (Ptr (Some (length h)) (length xs)) v =
     Inr (h @ [Block (map Live (xs @ [v]) @ rest)])"
  by (simp add: construct_def slots_at_def list_update_append)

lemma PushBack_full:
  assumes "rep s this b xs []"
  shows "PushBack s this v =
    Inr (s\<lparr>heap := heap s @ [Block (map Live (xs @ [v]) @ replicate (length xs div 2) Raw)],
           objects := (objects s)(this :=
             \<lparr>head = Ptr (Some (length (heap s))) 0,
              tail = Ptr (Some (length (heap s))) (Suc (length xs)),
              tailCap = Ptr (Some (length (heap s))) (length xs div 2 + length xs + 1)\<rparr>)\<rparr>)"
proof -
  let ?m = "length xs div 2 + length xs + 1"
  have sz: "size_da s this = Inr (length xs)" using assms by (rule rep_size)
  have cp: "capacity s this = Inr (length xs)" using rep_capacity[OF assms] by simp
  have grow: "AmortizedGrow s this =
     Inr (s\<lparr>heap := heap s @ [Block (map Live xs @ replicate (?m - length xs) Raw)],
           objects := (objects s)(this :=
             \<lparr>head = Ptr (Some (length (heap s))) 0,
              tail = Ptr (Some (length (heap s))) (length xs),
              tailCap = Ptr (Some (length (heap s))) ?m\<rparr>)\<rparr>)"
    unfolding AmortizedGrow_def AmortizedGrowSize_def sz
    using Realloc_rep[OF assms, of ?m] by simp
  have r: "replicate (?m - length xs) Raw = Raw # replicate (length xs div 2) (Raw :: 'a slot)"
    by (simp add: replicate_Suc[symmetric] del: replicate_Suc)
  show ?thesis
    unfolding PushBack_def sz cp grow r
    by (simp add: construct_fresh set_tail_def)
qed

lemma PushBack_sentinel:
  assumes "objects s this = sentinel"
  shows "PushBack s this v =
    Inr (s\<lparr>heap := heap s @ [Block [Live v]],
           objects := (objects s)(this :=
             \<lparr>head = Ptr (Some (length (heap s))) 0,
              tail = Ptr (Some (length (heap s))) 1,
              tailCap = Ptr (Some (length (heap s))) 1\<rparr>)\<rparr>)"
proof -
  have sz: "size_da s this = Inr 0" using assms by (rule sentinel_size)
  have cp: "capacity s this = Inr 0" using assms by (rule sentinel_capacity)
  have grow: "AmortizedGrow s this =
     Inr (s\<lparr>heap := heap s @ [Block (map Live [] @ Raw # [])],
           objects := (objects s)(this :=
             \<lparr>head = Ptr (Some (length (heap s))) 0,
              tail = Ptr (Some (length (heap s))) (length ([] :: 'a list)),
              tailCap = Ptr (Some (length (heap s))) 1\<rparr>)\<rparr>)"
    unfolding AmortizedGrow_def AmortizedGrowSize_def sz
    using Realloc_sentinel[OF assms, of 1] by simp
  show ?thesis
    unfolding PushBack_def sz cp grow
    by (simp add: construct_def slots_at_def set_tail_def)
qed

text \<open>What one \<^verbatim>\<open>push_back\<close> does to a well-formed container.\<close>

lemma push_back_room:
  assumes "rep s this b xs (r # rest)"
  shows "\<exists>s'. push_back s this v = Inr s' \<and> rep s' this b (xs @ [v]) rest"
  using assms by (simp add: push_back_def PushBack_room[OF assms] rep_def)

lemma push_back_full:
  assumes "rep s this b xs []"
  shows "\<exists>s'. push_back s this v = Inr s' \<and>
           rep s' this (length (heap s)) (xs @ [v]) (replicate (length xs div 2) Raw)"
  by (simp add: push_back_def PushBack_full[OF assms] rep_def)

lemma push_back_sentinel:
  assumes "objects s this = sentinel"
  shows "\<exists>s'. push_back s this v = Inr s' \<and> rep s' this (length (heap s)) [v] []"
  by (simp add: push_back_def PushBack_sentinel[OF assms] rep_def)

lemma push_back_valid:
  assumes "valid s this" "elements s this = Inr xs"
  shows "\<exists>s' b rest. push_back s this v = Inr s' \<and> rep s' this b (xs @ [v]) rest"
proof -
  from assms(1) consider "objects s this = sentinel" | b ys rest where "rep s this b ys rest"
    unfolding valid_iff by blast
  then show ?thesis
  proof cases
    case 1
    then have "xs = []" using assms(2) by (simp add: sentinel_elements)
    then show ?thesis using push_back_sentinel[OF 1, of v] by auto
  next
    case 2
    then have ys: "ys = xs" using assms(2) by (simp add: rep_elements)
    show ?thesis
    proof (cases rest)
      case Nil
      then show ?thesis using push_back_full[of s this b xs v] 2 ys by blast
    next
      case (Cons r rest')
      then show ?thesis using push_back_room[of s this b xs r rest' v] 2 ys by blast
    qed
  qed
qed

lemma push_all_valid:
  assumes "valid s this" "elements s this = Inr xs"
  shows "\<exists>s'. push_all s this vs = Inr s' \<and> valid s' this \<and>
           size_da s' this = Inr (length xs + length vs) \<and>
           elements s' this = Inr (xs @ vs) \<and> iterate s' this = Inr (xs @ vs)"
  using assms
proof (induction vs arbitrary: s xs)
  case Nil
  from Nil(1) consider "objects s this = sentinel" | b ys rest where "rep s this b ys rest"
    unfolding valid_iff by blast
  then show ?case
  proof cases
    case 1
    then show ?thesis using Nil by (simp add: sentinel_elements sentinel_iterate sentinel_size)
  next
    case 2
    then show ?thesis using Nil by (simp add: rep_elements rep_iterate rep_size)
  qed
next
  case (Cons v vs)
  obtain s1 b rest where s1: "push_back s this v = Inr s1" "rep s1 this b (xs @ [v]) rest"
    using push_back_valid[OF Cons.prems] by blast
  have "valid s1 this" "elements s1 this = Inr (xs @ [v])"
    using s1(2) by (simp_all add: rep_valid rep_elements)
  from Cons.IH[OF this] show ?case using s1(1) by simp
qed

text \<open>
  C5.  A \<^verbatim>\<open>push_back\<close> on a well-formed container with \<^verbatim>\<open>size() == capacity()\<close>
  returns, having moved the elements to a fresh block, and the capacity afterwards is
  \<open>capacity + capacity div 2 + 1\<close>, more than before; this includes capacity 0 and 1.
\<close>

theorem push_back_growth:
  assumes "valid s this" "size_da s this = Inr n" "capacity s this = Inr n"
  shows "\<exists>s'. push_back s this v = Inr s' \<and>
           capacity s' this = Inr (n + n div 2 + 1) \<and> n < n + n div 2 + 1 \<and>
           head (objects s' this) = Ptr (Some (length (heap s))) 0 \<and>
           size_da s' this = Inr (n + 1)"
proof -
  from assms(1) consider "objects s this = sentinel" | b xs rest where "rep s this b xs rest"
    unfolding valid_iff by blast
  then show ?thesis
  proof cases
    case 1
    then have n: "n = 0" using assms(2) by (simp add: sentinel_size)
    obtain s' where s': "push_back s this v = Inr s'" "rep s' this (length (heap s)) [v] []"
      using push_back_sentinel[OF 1] by blast
    show ?thesis
      using s'(1) rep_capacity[OF s'(2)] rep_size[OF s'(2)] s'(2) n by (simp add: rep_def)
  next
    case 2
    have n: "length xs = n" using assms(2) rep_size[OF 2] by simp
    have "rest = []" using assms(3) rep_capacity[OF 2] n by simp
    then obtain s' where s': "push_back s this v = Inr s'"
        "rep s' this (length (heap s)) (xs @ [v]) (replicate (length xs div 2) Raw)"
      using push_back_full[of s this b xs v] 2 by blast
    show ?thesis
      using s'(1) rep_capacity[OF s'(2)] rep_size[OF s'(2)] s'(2) n by (simp add: rep_def)
  qed
qed

theorem push_back_growth_witness:
  "valid (init_state :: int state) 0 \<and> size_da (init_state :: int state) 0 = Inr 0 \<and>
   capacity (init_state :: int state) 0 = Inr 0 \<and>
   (\<exists>s'. push_back init_state 0 (1 :: int) = Inr s' \<and> capacity s' 0 = Inr 1 \<and>
      size_da s' 0 = Inr 1) \<and>
   valid one_state 0 \<and> size_da one_state 0 = Inr 1 \<and> capacity one_state 0 = Inr 1 \<and>
   (\<exists>s'. push_back one_state 0 2 = Inr s' \<and> capacity s' 0 = Inr 2 \<and> size_da s' 0 = Inr 2)"
proof -
  have h: "valid (init_state :: int state) 0" "size_da (init_state :: int state) 0 = Inr 0"
    "capacity (init_state :: int state) 0 = Inr 0"
    by (simp_all add: valid_def init_state_def sentinel_size sentinel_capacity)
  have k: "valid one_state 0" "size_da one_state 0 = Inr 1" "capacity one_state 0 = Inr 1"
    by (simp_all add: valid_def one_state_def size_da_def capacity_def ptr_diff_def
          size_type_of_def sentinel_def nullptr_def)
  from push_back_growth[OF h, of 1] push_back_growth[OF k, of 2] show ?thesis
    using h k by auto
qed

text \<open>
  C6.  Pushing the values \<open>vs\<close> one after the other onto a default-constructed container
  returns a container of size \<open>length vs\<close> whose elements, read by index or iterated from
  \<^verbatim>\<open>begin()\<close> to \<^verbatim>\<open>end()\<close>, are \<open>vs\<close> in order.  Each \<^verbatim>\<open>push_back\<close> on a well-formed
  container of size \<open>n\<close> returns a container of size \<open>n + 1\<close> in which slot \<open>n\<close> holds the
  constructed element; the construction comes before the increment in \<^verbatim>\<open>PushBack\<close>.
\<close>

theorem push_back_sequence:
  "(\<exists>s0 s'. construct_default s this = Inr s0 \<and> push_all s0 this vs = Inr s' \<and>
      size_da s' this = Inr (length vs) \<and> elements s' this = Inr vs \<and>
      iterate s' this = Inr vs) \<and>
   (valid s this \<longrightarrow> size_da s this = Inr n \<longrightarrow>
      (\<exists>s'. push_back s this v = Inr s' \<and> size_da s' this = Inr (Suc n) \<and>
         subscript s' this n = Inr v \<and> valid s' this))"
proof (intro conjI impI)
  let ?s0 = "s\<lparr>objects := (objects s)(this := sentinel)\<rparr>"
  have c: "construct_default s this = Inr ?s0"
    by (simp add: construct_default_def sentinel_def)
  have v: "valid ?s0 this" by (simp add: valid_def)
  have e: "elements ?s0 this = Inr []" by (simp add: sentinel_elements)
  from push_all_valid[OF v e, of vs] c
  show "\<exists>s0 s'. construct_default s this = Inr s0 \<and> push_all s0 this vs = Inr s' \<and>
      size_da s' this = Inr (length vs) \<and> elements s' this = Inr vs \<and>
      iterate s' this = Inr vs"
    by auto
next
  assume v: "valid s this" and n: "size_da s this = Inr n"
  from v consider "objects s this = sentinel" | b xs rest where "rep s this b xs rest"
    unfolding valid_iff by blast
  then obtain xs where xs: "elements s this = Inr xs" "length xs = n"
  proof cases
    case 1
    then show ?thesis using that[of "[]"] n by (simp add: sentinel_elements sentinel_size)
  next
    case 2
    then show ?thesis using that[of xs] n by (simp add: rep_elements rep_size)
  qed
  obtain s' b rest where s': "push_back s this v = Inr s'" "rep s' this b (xs @ [v]) rest"
    using push_back_valid[OF v xs(1)] by blast
  have "subscript s' this (length xs) = Inr v"
    using rep_subscript[OF s'(2), of "length xs"] by simp
  then have "subscript s' this n = Inr v"
    using xs(2) by simp
  then show "\<exists>s'. push_back s this v = Inr s' \<and> size_da s' this = Inr (Suc n) \<and>
         subscript s' this n = Inr v \<and> valid s' this"
    using s' rep_size[OF s'(2)] rep_valid[OF s'(2)] xs(2) by simp
qed

theorem push_back_sequence_witness:
  "valid three_state 0 \<and> size_da three_state 0 = Inr 3 \<and>
   (\<exists>s'. push_back three_state 0 4 = Inr s' \<and> size_da s' 0 = Inr 4 \<and>
      subscript s' 0 3 = Inr 4 \<and> valid s' 0) \<and>
   (\<exists>s0 s'. construct_default init_state 0 = Inr s0 \<and> push_all s0 0 [1, 2, 3 :: int] = Inr s' \<and>
      size_da s' 0 = Inr 3 \<and> elements s' 0 = Inr [1, 2, 3] \<and> iterate s' 0 = Inr [1, 2, 3])"
proof -
  have h: "valid three_state 0" "size_da three_state 0 = Inr 3"
    by (simp_all add: valid_def size_da_def ptr_diff_def size_type_of_def three_state_def
          sentinel_def nullptr_def)
  from push_back_sequence[of init_state 0 "[1, 2, 3]" 3 4]
    push_back_sequence[of three_state 0 "[]" 3 4] h
  show ?thesis by auto
qed

section \<open>Resizing\<close>

text \<open>
  What \<^verbatim>\<open>resize\<close> does on a well-formed container.  Growing always moves the elements
  to a fresh block of exactly \<open>n\<close> slots; shrinking stays in the block.
\<close>

lemma resize_grow:
  assumes "valid s this" "elements s this = Inr xs" "length xs < n"
  shows "\<exists>s'. resize s this n v = Inr s' \<and>
           rep s' this (length (heap s)) (xs @ replicate (n - length xs) v) []"
proof -
  let ?L = "length (heap s)"
  let ?ns = "map Live xs @ replicate (n - length xs) Raw"
  let ?s1 = "s\<lparr>heap := heap s @ [Block ?ns],
           objects := (objects s)(this :=
             \<lparr>head = Ptr (Some ?L) 0, tail = Ptr (Some ?L) (length xs),
              tailCap = Ptr (Some ?L) n\<rparr>)\<rparr>"
  obtain ys where "elements s this = Inr ys" "size_da s this = Inr (length ys)"
    using assms(1) by (rule valid_elements)
  then have sz: "size_da s this = Inr (length xs)" using assms(2) by simp
  have ra: "Realloc s this n = Inr ?s1"
    using Realloc_valid[OF assms(1,2), of n] assms(3) by simp
  have "fill_loop (heap s @ [Block ?ns]) (Ptr (Some ?L) 0) (length xs) n v =
      Inr ((heap s @ [Block ?ns])[?L := Block (take (length xs) ?ns @
             replicate (n - length xs) (Live v) @ drop n ?ns)])"
    using assms(3) by (intro fill_loop_ok) auto
  then have fl: "fill_loop (heap s @ [Block ?ns]) (Ptr (Some ?L) 0) (length xs) n v =
      Inr (heap s @ [Block (map Live (xs @ replicate (n - length xs) v))])"
    using assms(3) by (simp add: map_replicate)
  show ?thesis
    using assms(3) unfolding resize_def Reallocate_def sz
    by (simp add: ra fl set_tail_def rep_def del: map_append)
qed

lemma resize_shrink:
  assumes "rep s this b xs rest" "n < length xs"
  shows "\<exists>s'. resize s this n v = Inr s' \<and>
           rep s' this b (take n xs) (replicate (length xs - n) Raw @ rest)"
proof -
  have sz: "size_da s this = Inr (length xs)" using assms(1) by (rule rep_size)
  have hd: "head (objects s this) = Ptr (Some b) 0" and b: "b < length (heap s)"
    and blk: "heap s ! b = Block (map Live (take (length xs) xs) @ rest)"
    using assms(1) by (simp_all add: rep_def)
  have dl: "destroy_loop (heap s) (Ptr (Some b) 0) (length xs) n =
      Inr ((heap s)[b := Block (map Live (take n xs) @ replicate (length xs - n) Raw @ rest)])"
    using assms(2) by (intro destroy_loop_ok[OF b blk]) auto
  show ?thesis
    using assms unfolding resize_def Reallocate_def sz
    by (simp add: hd dl set_tail_def low_def rep_def min_def)
qed

lemma resize_same:
  assumes "size_da s this = Inr n"
  shows "resize s this n v = Inr s"
  using assms by (simp add: resize_def Reallocate_def)

text \<open>
  C7.  The container \<open>[1, 2]\<close> with capacity 4: \<^verbatim>\<open>resize(3, 9)\<close> grows it to
  \<open>[1, 2, 9]\<close> in a fresh block of 3 slots, and the capacity drops from 4 to 3.
\<close>

theorem resize_grow_reduces_capacity:
  "size_da two_of_four 0 = Inr 2 \<and> capacity two_of_four 0 = Inr 4 \<and>
   (\<exists>s'. resize two_of_four 0 3 9 = Inr s' \<and> size_da s' 0 = Inr 3 \<and>
      capacity s' 0 = Inr 3 \<and> head (objects s' 0) = Ptr (Some 3) 0 \<and>
      heap s' ! 3 = Block [Live 1, Live 2, Live 9])"
  by (simp add: two_of_four_def eval_defs eval_more)

section \<open>The cursor invariant\<close>

lemma Init_copy_cursors:
  assumes "Init_copy s other = Inr (p, s1)"
  shows "p = Ptr (Some (length (heap s))) 0 \<and> objects s1 = objects s"
  using assms by (auto simp: Init_copy_def allocate_def bindE_eq_Inr)

lemma Init_fill_cursors:
  assumes "Init_fill s n v = Inr (p, s1)"
  shows "p = Ptr (Some (length (heap s))) 0 \<and> objects s1 = objects s"
  using assms by (auto simp: Init_fill_def allocate_def bindE_eq_Inr)

lemma Clear_objects: "Clear s this = Inr s' \<Longrightarrow> objects s' = objects s"
  by (auto simp: Clear_def bindE_eq_Inr)

text \<open>The cursors each operation leaves behind when it returns.\<close>

lemma construct_default_cursors:
  "construct_default s this = Inr s' \<Longrightarrow> objects s' = (objects s)(this := sentinel)"
  by (auto simp: construct_default_def sentinel_def)

lemma construct_fill_cursors:
  assumes "construct_fill s this n v = Inr s'"
  shows "\<exists>a. objects s' = (objects s)(this := a) \<and> cursors_ordered a"
proof -
  from assms obtain p s1 where i: "Init_fill s n v = Inr (p, s1)"
    and s': "s' = set_tailCap (set_tail (set_head s1 this p) this
               (ptr_add (head (objects (set_head s1 this p) this)) n)) this
               (tail (objects (set_tail (set_head s1 this p) this
               (ptr_add (head (objects (set_head s1 this p) this)) n)) this))"
    by (auto simp: construct_fill_def bindE_eq_Inr Let_def)
  show ?thesis
    using Init_fill_cursors[OF i] unfolding s'
    by (auto simp: set_head_def set_tail_def set_tailCap_def cursors_ordered_def all_fields)
qed

lemma construct_copy_cursors:
  assumes "construct_copy s this other = Inr s'" "cursors_ordered (objects s other)"
  shows "\<exists>a. objects s' = (objects s)(this := a) \<and> cursors_ordered a"
proof -
  from assms(1) obtain p s1 n c where i: "Init_copy s other = Inr (p, s1)"
    and n: "size_da (set_head s1 this p) other = Inr n"
    and c: "capacity (set_tail (set_head s1 this p) this
               (ptr_add (head (objects (set_head s1 this p) this)) n)) other = Inr c"
    and s': "s' = set_tailCap (set_tail (set_head s1 this p) this
               (ptr_add (head (objects (set_head s1 this p) this)) n)) this
               (ptr_add (head (objects (set_tail (set_head s1 this p) this
               (ptr_add (head (objects (set_head s1 this p) this)) n)) this)) c)"
    by (auto simp: construct_copy_def bindE_eq_Inr Let_def)
  have "n \<le> c"
    using Init_copy_cursors[OF i] n c assms(2)
    by (auto simp: set_head_def set_tail_def size_da_def capacity_def ptr_diff_def
          size_type_of_def cursors_ordered_def bindE_eq_Inr split: if_splits)
  then show ?thesis
    using Init_copy_cursors[OF i] unfolding s'
    by (auto simp: set_head_def set_tail_def set_tailCap_def cursors_ordered_def all_fields)
qed

lemma assign_copy_cursors:
  assumes "assign_copy s this other = Inr s'"
  shows "\<exists>a. objects s' = (objects s)(this := a) \<and> cursors_ordered a"
proof -
  from assms(1) obtain p s1 n where i: "Init_copy s other = Inr (p, s1)"
    and s': "s' = set_tailCap (set_tail (set_head s1 this p) this
               (ptr_add (head (objects (set_head s1 this p) this)) n)) this
               (tail (objects (set_tail (set_head s1 this p) this
               (ptr_add (head (objects (set_head s1 this p) this)) n)) this))"
    by (auto simp: assign_copy_def bindE_eq_Inr Let_def)
  show ?thesis
    using Init_copy_cursors[OF i] unfolding s'
    by (auto simp: set_head_def set_tail_def set_tailCap_def cursors_ordered_def all_fields)
qed

lemma move_cursors:
  "construct_move s this other = Inr s' \<Longrightarrow>
     objects s' = (objects s)(this := objects s other, other := sentinel)"
  "assign_move s this other = Inr s' \<Longrightarrow>
     objects s' = (objects s)(this := objects s other, other := sentinel)"
  by (cases "this = other";
      auto simp: construct_move_distinct assign_move_distinct assign_move_self
        construct_move_def assign_move_def Let_def set_head_def set_tail_def set_tailCap_def
        sentinel_def all_fields)+

lemma reserve_cursors:
  assumes "reserve s this n = Inr s'" "cursors_ordered (objects s this)"
  shows "\<exists>a. objects s' = (objects s)(this := a) \<and> cursors_ordered a"
proof -
  from assms(1) obtain sz where sz: "size_da s this = Inr sz"
    and r: "(if n > sz then Realloc s this n else Inr s) = Inr s'"
    by (auto simp: reserve_def Reallocate_def bindE_eq_Inr cong: if_cong)
  show ?thesis
  proof (cases "n > sz")
    case True
    then show ?thesis using r sz Realloc_cursors[of s this n s']
      by (auto simp: cursors_ordered_def)
  next
    case False
    then have "objects s' = (objects s)(this := objects s this)" using r by simp
    then show ?thesis using assms(2) by blast
  qed
qed

lemma resize_cursors:
  assumes "resize s this n v = Inr s'" "cursors_ordered (objects s this)"
  shows "\<exists>a. objects s' = (objects s)(this := a) \<and> cursors_ordered a"
proof -
  from assms(1) obtain sz where sz: "size_da s this = Inr sz"
    by (auto simp: resize_def Reallocate_def bindE_eq_Inr)
  have szo: "sz = offset (tail (objects s this))"
    using sz ordered_size[OF assms(2)] by simp
  consider "n > sz" | "n < sz" | "n = sz" by linarith
  then show ?thesis
  proof cases
    case 1
    then obtain s1 h2 where r: "Realloc s this n = Inr s1"
      and s': "s' = set_tail (s1\<lparr>heap := h2\<rparr>) this (ptr_add (head (objects s1 this)) n)"
      using assms(1) sz by (auto simp: resize_def Reallocate_def bindE_eq_Inr)
    show ?thesis
      using Realloc_cursors[OF r] unfolding s'
      by (auto simp: set_tail_def cursors_ordered_def)
  next
    case 2
    then obtain h1 where
      s': "s' = set_tail (s\<lparr>heap := h1\<rparr>) this (ptr_add (head (objects s this)) (low n))"
      using assms(1) sz by (auto simp: resize_def Reallocate_def bindE_eq_Inr)
    show ?thesis
      using assms(2) 2 szo unfolding s'
      by (cases "objects s this"; cases "head (objects s this)")
         (auto simp: set_tail_def cursors_ordered_def low_def)
  next
    case 3
    then have "objects s' = (objects s)(this := objects s this)"
      using assms(1) sz by (simp add: resize_def Reallocate_def)
    then show ?thesis using assms(2) by blast
  qed
qed

lemma push_back_cursors:
  assumes "push_back s this v = Inr s'" "cursors_ordered (objects s this)"
  shows "\<exists>a. objects s' = (objects s)(this := a) \<and> cursors_ordered a"
proof -
  let ?n = "offset (tail (objects s this))" and ?c = "offset (tailCap (objects s this))"
  have sz: "size_da s this = Inr ?n" and cp: "capacity s this = Inr ?c"
    using assms(2) by (simp_all add: ordered_size ordered_capacity)
  from assms(1) obtain s1 h2 where g: "(if ?n = ?c then AmortizedGrow s this else Inr s) = Inr s1"
    and s': "s' = set_tail (s1\<lparr>heap := h2\<rparr>) this (ptr_add (tail (objects s1 this)) 1)"
    by (auto simp: push_back_def PushBack_def sz cp bindE_eq_Inr)
  show ?thesis
  proof (cases "?n = ?c")
    case True
    then have "Realloc s this (?n div 2 + ?n + 1) = Inr s1"
      using g by (simp add: AmortizedGrow_def AmortizedGrowSize_def sz)
    from Realloc_cursors[OF this] show ?thesis
      unfolding s' by (auto simp: sz set_tail_def cursors_ordered_def)
  next
    case False
    then have "s1 = s" using g by simp
    then show ?thesis
      using assms(2) False unfolding s'
      by (cases "objects s this"; cases "tail (objects s this)")
         (auto simp: set_tail_def cursors_ordered_def)
  qed
qed

lemma pop_back_cursors:
  assumes "pop_back s this = Inr s'" "cursors_ordered (objects s this)"
  shows "\<exists>a. objects s' = (objects s)(this := a) \<and> cursors_ordered a"
  using assms
  by (cases "objects s this"; cases "tail (objects s this)")
     (auto simp: pop_back_def bindE_eq_Inr ptr_prev_def set_tail_def cursors_ordered_def
           split: if_splits)

lemma clear_cursors:
  "clear s this = Inr s' \<Longrightarrow> objects s' = (objects s)(this := sentinel)"
  by (auto simp: clear_def bindE_eq_Inr set_head_def set_tail_def set_tailCap_def
        sentinel_def all_fields dest!: Clear_objects)

lemma release_cursors:
  "release s this = Inr (p, s') \<Longrightarrow> objects s' = (objects s)(this := sentinel)"
  by (auto simp: release_def Let_def set_head_def set_tail_def set_tailCap_def
        sentinel_def all_fields)

lemma run_cursors:
  assumes "run op s this = Inr s'"
    and "is_constructor op \<or> cursors_ordered (objects s this)"
    and "\<forall>other \<in> set_option (source op). cursors_ordered (objects s other)"
  shows "(\<exists>a. objects s' = (objects s)(this := a) \<and> cursors_ordered a) \<or>
         (\<exists>other. source op = Some other \<and>
            objects s' = (objects s)(this := objects s other, other := sentinel))"
proof (cases op)
  case DefaultConstruct
  then show ?thesis using assms construct_default_cursors[of s this s'] by auto
next
  case (FillConstruct n v)
  then show ?thesis using assms construct_fill_cursors[of s this n v s'] by auto
next
  case (CopyConstruct other)
  then show ?thesis using assms construct_copy_cursors[of s this other s'] by auto
next
  case (MoveConstruct other)
  then show ?thesis using assms move_cursors(1)[of s this other s'] by auto
next
  case (CopyAssign other)
  then show ?thesis using assms assign_copy_cursors[of s this other s'] by auto
next
  case (MoveAssign other)
  then show ?thesis using assms move_cursors(2)[of s this other s'] by auto
next
  case (Reserve n)
  then show ?thesis using assms reserve_cursors[of s this n s'] by auto
next
  case (Resize n v)
  then show ?thesis using assms resize_cursors[of s this n v s'] by auto
next
  case (PushBackOp v)
  then show ?thesis using assms push_back_cursors[of s this v s'] by auto
next
  case PopBack
  then show ?thesis using assms pop_back_cursors[of s this s'] by auto
next
  case ClearOp
  then show ?thesis using assms clear_cursors[of s this s'] by auto
next
  case Release
  then show ?thesis using assms release_cursors[of s this _ s']
    by (auto simp: bindE_eq_Inr)
qed

text \<open>
  C9.  \<open>L\<close> is a set of constructed objects whose cursors are ordered: \<^verbatim>\<open>head\<close> at the
  start of a region, \<^verbatim>\<open>tail\<close> and \<^verbatim>\<open>tailCap\<close> in the same region, \<^verbatim>\<open>tail\<close> not past
  \<^verbatim>\<open>tailCap\<close>.  When a public operation on \<^verbatim>\<open>this\<close> returns (a constructor on any
  object, any other operation on an object of \<open>L\<close>, with \<^verbatim>\<open>other\<close> in \<open>L\<close>), every
  object of \<open>L\<close> and \<^verbatim>\<open>this\<close> have ordered cursors again, and \<^verbatim>\<open>size()\<close> and
  \<^verbatim>\<open>capacity()\<close>, which are computed from the cursors, satisfy
  \<^verbatim>\<open>size() <= capacity()\<close>.  An object in the empty sentinel state has size and
  capacity 0.
\<close>

theorem size_le_capacity_invariant:
  assumes "\<forall>x\<in>L. cursors_ordered (objects s x)"
    and "is_constructor op \<or> this \<in> L"
    and "\<forall>other\<in>set_option (source op). other \<in> L"
    and "run op s this = Inr s'"
  shows "(\<forall>x\<in>insert this L.
            cursors_ordered (objects s' x) \<and>
            size_da s' x = Inr (offset (tail (objects s' x))) \<and>
            capacity s' x = Inr (offset (tailCap (objects s' x))) \<and>
            (\<exists>n c. size_da s' x = Inr n \<and> capacity s' x = Inr c \<and> n \<le> c)) \<and>
         (\<forall>x. objects s' x = sentinel \<longrightarrow> size_da s' x = Inr 0 \<and> capacity s' x = Inr 0)"
proof -
  have pre: "is_constructor op \<or> cursors_ordered (objects s this)"
    using assms(1,2) by blast
  have src: "\<forall>other \<in> set_option (source op). cursors_ordered (objects s other)"
    using assms(1,3) by blast
  have ord: "cursors_ordered (objects s' x)" if "x \<in> insert this L" for x
  proof -
    from run_cursors[OF assms(4) pre src]
    consider a where "objects s' = (objects s)(this := a)" "cursors_ordered a"
      | other where "source op = Some other"
          "objects s' = (objects s)(this := objects s other, other := sentinel)"
      by blast
    then show ?thesis
    proof cases
      case 1
      then show ?thesis using that assms(1) by auto
    next
      case 2
      then have "cursors_ordered (objects s other)" using src by simp
      then show ?thesis using 2 that assms(1) by auto
    qed
  qed
  have le: "\<exists>n c. size_da s' x = Inr n \<and> capacity s' x = Inr c \<and> n \<le> c"
    if "cursors_ordered (objects s' x)" for x
    using that ordered_size[OF that] ordered_capacity[OF that]
    by (simp add: cursors_ordered_def)
  have first: "\<forall>x\<in>insert this L.
            cursors_ordered (objects s' x) \<and>
            size_da s' x = Inr (offset (tail (objects s' x))) \<and>
            capacity s' x = Inr (offset (tailCap (objects s' x))) \<and>
            (\<exists>n c. size_da s' x = Inr n \<and> capacity s' x = Inr c \<and> n \<le> c)"
  proof
    fix x assume "x \<in> insert this L"
    then have o: "cursors_ordered (objects s' x)" by (rule ord)
    show "cursors_ordered (objects s' x) \<and>
            size_da s' x = Inr (offset (tail (objects s' x))) \<and>
            capacity s' x = Inr (offset (tailCap (objects s' x))) \<and>
            (\<exists>n c. size_da s' x = Inr n \<and> capacity s' x = Inr c \<and> n \<le> c)"
      using o ordered_size[OF o] ordered_capacity[OF o] le[OF o] by simp
  qed
  have second: "\<forall>x. objects s' x = sentinel \<longrightarrow>
      size_da s' x = Inr 0 \<and> capacity s' x = Inr 0"
    by (simp add: sentinel_size sentinel_capacity)
  from first second show ?thesis by (rule conjI)
qed

theorem size_le_capacity_invariant_witness:
  "cursors_ordered (objects three_state 0) \<and>
   run PopBack three_state 0 = Inr two_of_four \<and>
   cursors_ordered (objects two_of_four 0) \<and>
   size_da two_of_four 0 = Inr 2 \<and> capacity two_of_four 0 = Inr 4"
proof -
  have h1: "\<forall>x\<in>{0}. cursors_ordered (objects three_state x)"
    by (simp add: cursors_ordered_def three_state_def)
  have h2: "is_constructor (PopBack :: int operation) \<or> (0 :: nat) \<in> {0}" by simp
  have h3: "\<forall>other\<in>set_option (source (PopBack :: int operation)). other \<in> {0 :: nat}"
    by simp
  have h4: "run PopBack three_state 0 = Inr two_of_four" by (simp add: pop_three)
  have t: "offset (tail (objects two_of_four 0)) = 2"
    "offset (tailCap (objects two_of_four 0)) = 4"
    by (simp_all add: two_of_four_def)
  from size_le_capacity_invariant[OF h1 h2 h3 h4] h1 h4 t show ?thesis
    by simp
qed

section \<open>The operations return\<close>

text \<open>
  On well-formed containers the public operations return, so the cursor invariant is
  not one of runs that stop.  \<^verbatim>\<open>pop_back\<close> needs an element to remove, and the copies and
  moves a source other than \<^verbatim>\<open>this\<close>.
\<close>

lemma construct_fill_returns:
  "\<exists>s'. construct_fill s this n v = Inr s' \<and> rep s' this (length (heap s)) (replicate n v) []"
proof -
  let ?L = "length (heap s)"
  have "fill_loop (heap s @ [Block (replicate n Raw)]) (Ptr (Some ?L) 0) 0 n v =
      Inr ((heap s @ [Block (replicate n Raw)])[?L := Block (take 0 (replicate n Raw) @
             replicate (n - 0) (Live v) @ drop n (replicate n Raw))])"
    by (intro fill_loop_ok) auto
  then have fl: "fill_loop (heap s @ [Block (replicate n Raw)]) (Ptr (Some ?L) 0) 0 n v =
      Inr (heap s @ [Block (map Live (replicate n v))])"
    by simp
  show ?thesis
    by (simp add: construct_fill_def Init_fill_def allocate_def fl Let_def set_head_def
          set_tail_def set_tailCap_def rep_def all_fields del: map_replicate)
qed

lemma pop_back_returns:
  assumes "rep s this b xs rest" "xs \<noteq> []"
  shows "\<exists>s'. pop_back s this = Inr s' \<and> rep s' this b (butlast xs) (Raw # rest)"
proof -
  obtain ys y where xs: "xs = ys @ [y]" using assms(2) by (metis rev_exhaust)
  have tl: "tail (objects s this) = Ptr (Some b) (Suc (length ys))"
    and b: "b < length (heap s)" and blk: "heap s ! b = Block (map Live ys @ Live y # rest)"
    using assms(1) by (simp_all add: rep_def xs)
  have ds: "destroy (heap s) (Ptr (Some b) (length ys)) =
      Inr ((heap s)[b := Block ((map Live ys @ Live y # rest)[length ys := Raw])])"
    using b blk by (intro destroy_slot[where v = y]) (auto simp: nth_append)
  show ?thesis
    using assms(1) b
    by (simp add: pop_back_def ptr_prev_def tl ds set_tail_def rep_def xs list_update_append)
qed

lemma Clear_returns:
  assumes "valid s this"
  shows "\<exists>s'. Clear s this = Inr s'"
proof -
  from assms consider "objects s this = sentinel" | b xs rest where "rep s this b xs rest"
    unfolding valid_iff by blast
  then show ?thesis
  proof cases
    case 1
    then show ?thesis
      by (simp add: Clear_def sentinel_size sentinel_capacity destroy_loop.simps deallocate_def)
         (simp add: sentinel_def)
  next
    case 2
    have hd: "head (objects s this) = Ptr (Some b) 0" and b: "b < length (heap s)"
      and blk: "heap s ! b = Block (map Live (take (length xs) xs) @ rest)"
      using 2 by (simp_all add: rep_def)
    have dl: "destroy_loop (heap s) (Ptr (Some b) 0) (length xs) 0 =
        Inr ((heap s)[b := Block (map Live (take 0 xs) @ replicate (length xs - 0) Raw @ rest)])"
      by (intro destroy_loop_ok[OF b blk]) auto
    show ?thesis
      using b
      by (simp add: Clear_def rep_size[OF 2] rep_capacity[OF 2] hd dl deallocate_def nullptr_def)
  qed
qed

lemma run_returns:
  assumes "is_constructor op \<or> valid s this"
    and "\<forall>other\<in>set_option (source op). valid s other \<and> other \<noteq> this"
    and "op = PopBack \<longrightarrow> size_da s this \<noteq> Inr 0"
  shows "\<exists>s'. run op s this = Inr s'"
proof (cases op)
  case DefaultConstruct
  then show ?thesis by (simp add: construct_default_def)
next
  case (FillConstruct n v)
  then show ?thesis using construct_fill_returns[of s this n v] by auto
next
  case (CopyConstruct other)
  then have v: "valid s other" and d: "this \<noteq> other" using assms(2) by auto
  obtain xs where xs: "elements s other = Inr xs" using v by (rule valid_elements)
  obtain c where c: "capacity s other = Inr c"
    using v unfolding valid_iff by (auto simp: sentinel_capacity rep_capacity)
  show ?thesis using construct_copy_valid[OF v xs c d] CopyConstruct by auto
next
  case (MoveConstruct other)
  then show ?thesis by (simp add: construct_move_def Let_def)
next
  case (CopyAssign other)
  then have v: "valid s other" and d: "this \<noteq> other" using assms(2) by auto
  obtain xs where xs: "elements s other = Inr xs" using v by (rule valid_elements)
  show ?thesis using assign_copy_valid[OF v xs d] CopyAssign by auto
next
  case (MoveAssign other)
  then show ?thesis by (simp add: assign_move_def Let_def)
next
  case (Reserve n)
  then have v: "valid s this" using assms(1) by simp
  obtain xs where xs: "elements s this = Inr xs" "size_da s this = Inr (length xs)"
    using v by (rule valid_elements)
  show ?thesis
  proof (cases "length xs < n")
    case True
    then show ?thesis using reserve_reallocates[OF v xs(1) True] Reserve by auto
  next
    case False
    then show ?thesis using reserve_noop[OF xs(2), of n] Reserve by simp
  qed
next
  case (Resize n v)
  then have vl: "valid s this" using assms(1) by simp
  obtain xs where xs: "elements s this = Inr xs" "size_da s this = Inr (length xs)"
    using vl by (rule valid_elements)
  consider "length xs < n" | "n < length xs" | "n = length xs" by linarith
  then show ?thesis
  proof cases
    case 1
    then show ?thesis using resize_grow[OF vl xs(1) 1, of v] Resize by auto
  next
    case 2
    then have "objects s this \<noteq> sentinel" using xs(2) by (auto simp: sentinel_size)
    then obtain b ys rest where r: "rep s this b ys rest" using vl unfolding valid_iff by blast
    then have "ys = xs" using xs(1) by (simp add: rep_elements)
    then show ?thesis using resize_shrink[of s this b xs rest n v] r 2 Resize by auto
  next
    case 3
    then show ?thesis using resize_same[of s this n v] xs(2) Resize by simp
  qed
next
  case (PushBackOp v)
  then have vl: "valid s this" using assms(1) by simp
  obtain xs where xs: "elements s this = Inr xs" using vl by (rule valid_elements)
  show ?thesis using push_back_valid[OF vl xs, of v] PushBackOp by auto
next
  case PopBack
  then have vl: "valid s this" and ne: "size_da s this \<noteq> Inr 0" using assms(1,3) by auto
  then have "objects s this \<noteq> sentinel" by (auto simp: sentinel_size)
  then obtain b xs rest where r: "rep s this b xs rest" using vl unfolding valid_iff by blast
  then have "xs \<noteq> []" using ne rep_size[OF r] by auto
  then show ?thesis using pop_back_returns[OF r] PopBack by auto
next
  case ClearOp
  then have "valid s this" using assms(1) by simp
  from Clear_returns[OF this] show ?thesis using ClearOp by (auto simp: clear_def)
next
  case Release
  then show ?thesis by (simp add: release_def Let_def)
qed

end
